theory Spec2Isabelle
  imports Main "HOL-Library.Word" "HOL-Library.Monad_Syntax"
begin

unbundle bit_operations_syntax

section \<open>Memory\<close>

text \<open>
  The allocator of \<^verbatim>\<open>el_malloc.c\<close> keeps all of its block bookkeeping inside the arena
  it manages, and reaches it through pointer arithmetic.  Memory is therefore modelled as it
  is on the target (x86-64 Linux): a map from 64-bit addresses to bytes.  \<^verbatim>\<open>size_t\<close> and
  pointers are 64-bit words, stored little-endian; address and size arithmetic wraps.
\<close>

type_synonym addr = "64 word"
type_synonym memory = "addr \<Rightarrow> 8 word"

definition byte_of :: "64 word \<Rightarrow> nat \<Rightarrow> 8 word" where
  "byte_of v i = ucast (drop_bit (8 * i) v)"

definition load64 :: "memory \<Rightarrow> addr \<Rightarrow> 64 word" where
  "load64 m a =
     ucast (m a) OR push_bit 8 (ucast (m (a + 1))) OR push_bit 16 (ucast (m (a + 2)))
     OR push_bit 24 (ucast (m (a + 3))) OR push_bit 32 (ucast (m (a + 4)))
     OR push_bit 40 (ucast (m (a + 5))) OR push_bit 48 (ucast (m (a + 6)))
     OR push_bit 56 (ucast (m (a + 7)))"

definition store64 :: "memory \<Rightarrow> addr \<Rightarrow> 64 word \<Rightarrow> memory" where
  "store64 m a v = (\<lambda>x. if x - a < 8 then byte_of v (unat (x - a)) else m x)"

section \<open>Declarations of \<^verbatim>\<open>el_malloc.h\<close>\<close>

text \<open>
  Modelled from the spec: the header \<^verbatim>\<open>el_malloc.h\<close> (struct layouts and macros) is not part
  of the sources.  The spec gives a per-block overhead of 40 bytes and an arena of 4096 bytes;
  the dumps quoted in the comments of \<^verbatim>\<open>el_print_stats\<close> show the arena at
  \<^verbatim>\<open>0x600000000000\<close>, the states printed as \<^verbatim>\<open>a\<close> and \<^verbatim>\<open>u\<close>, and a footer 32 bytes plus the
  payload size above its header.  So a block header takes 32 bytes (size, state, next, prev,
  each in an 8-byte slot), and a footer 8 bytes.
\<close>

definition sizeof_blockhead :: "64 word" where "sizeof_blockhead = 32"
definition sizeof_blockfoot :: "64 word" where "sizeof_blockfoot = 8"
definition EL_BLOCK_OVERHEAD :: "64 word" where
  "EL_BLOCK_OVERHEAD = sizeof_blockhead + sizeof_blockfoot"

definition EL_AVAILABLE :: "8 word" where "EL_AVAILABLE = 97"
definition EL_USED :: "8 word" where "EL_USED = 117"
definition EL_BEGIN_BLOCK :: "8 word" where "EL_BEGIN_BLOCK = 66"
definition EL_END_BLOCK :: "8 word" where "EL_END_BLOCK = 69"
definition EL_UNINITIALIZED :: "64 word" where "EL_UNINITIALIZED = - 1"

definition EL_HEAP_INITIAL_SIZE :: "64 word" where "EL_HEAP_INITIAL_SIZE = 4096"
definition EL_HEAP_START_ADDRESS :: addr where "EL_HEAP_START_ADDRESS = 0x600000000000"

definition NULL :: addr where "NULL = 0"

text \<open>Offsets of the fields of \<^verbatim>\<open>el_blockhead_t\<close>.\<close>

definition off_size :: "64 word" where "off_size = 0"
definition off_state :: "64 word" where "off_state = 8"
definition off_next :: "64 word" where "off_next = 16"
definition off_prev :: "64 word" where "off_prev = 24"

section \<open>Allocator state\<close>

text \<open>
  \<^verbatim>\<open>el_blocklist_t\<close>: the two sentinel nodes \<^verbatim>\<open>beg_actual\<close> and \<^verbatim>\<open>end_actual\<close> live in memory,
  because blocks of the arena point at them; \<open>beg\<close> and \<open>end'\<close> are their addresses.
\<close>

record el_blocklist =
  beg :: addr
  end' :: addr
  length' :: "64 word"
  bytes :: "64 word"

text \<open>\<^verbatim>\<open>el_ctl_t\<close>, together with the memory the program runs in.\<close>

record el_ctl =
  heap_start :: addr
  heap_end :: addr
  heap_bytes :: "64 word"
  avail :: el_blocklist
  used :: el_blocklist
  mem :: memory

text \<open>The two list pointers \<^verbatim>\<open>el_ctl.avail\<close> and \<^verbatim>\<open>el_ctl.used\<close> that the list operations take.\<close>

datatype listref = AVAIL | USED

fun get_list :: "listref \<Rightarrow> el_ctl \<Rightarrow> el_blocklist" where
  "get_list AVAIL s = avail s"
| "get_list USED s = used s"

fun put_list :: "listref \<Rightarrow> el_blocklist \<Rightarrow> el_ctl \<Rightarrow> el_ctl" where
  "put_list AVAIL l s = s\<lparr>avail := l\<rparr>"
| "put_list USED l s = s\<lparr>used := l\<rparr>"

text \<open>
  Field accesses through a block pointer.  Dereferencing \<^verbatim>\<open>NULL\<close> ends the program: the
  result \<open>None\<close> stands for that fault.
\<close>

definition get_size :: "el_ctl \<Rightarrow> addr \<Rightarrow> 64 word option" where
  "get_size s p = (if p = NULL then None else Some (load64 (mem s) (p + off_size)))"

definition get_state :: "el_ctl \<Rightarrow> addr \<Rightarrow> 8 word option" where
  "get_state s p = (if p = NULL then None else Some (mem s (p + off_state)))"

definition get_next :: "el_ctl \<Rightarrow> addr \<Rightarrow> addr option" where
  "get_next s p = (if p = NULL then None else Some (load64 (mem s) (p + off_next)))"

definition get_prev :: "el_ctl \<Rightarrow> addr \<Rightarrow> addr option" where
  "get_prev s p = (if p = NULL then None else Some (load64 (mem s) (p + off_prev)))"

definition set_size :: "addr \<Rightarrow> 64 word \<Rightarrow> el_ctl \<Rightarrow> el_ctl option" where
  "set_size p v s =
     (if p = NULL then None else Some (s\<lparr>mem := store64 (mem s) (p + off_size) v\<rparr>))"

definition set_state :: "addr \<Rightarrow> 8 word \<Rightarrow> el_ctl \<Rightarrow> el_ctl option" where
  "set_state p v s =
     (if p = NULL then None else Some (s\<lparr>mem := (mem s)(p + off_state := v)\<rparr>))"

definition set_next :: "addr \<Rightarrow> addr \<Rightarrow> el_ctl \<Rightarrow> el_ctl option" where
  "set_next p v s =
     (if p = NULL then None else Some (s\<lparr>mem := store64 (mem s) (p + off_next) v\<rparr>))"

definition set_prev :: "addr \<Rightarrow> addr \<Rightarrow> el_ctl \<Rightarrow> el_ctl option" where
  "set_prev p v s =
     (if p = NULL then None else Some (s\<lparr>mem := store64 (mem s) (p + off_prev) v\<rparr>))"

text \<open>The only field of \<^verbatim>\<open>el_blockfoot_t\<close>.\<close>

definition get_foot_size :: "el_ctl \<Rightarrow> addr \<Rightarrow> 64 word option" where
  "get_foot_size s f = (if f = NULL then None else Some (load64 (mem s) f))"

definition set_foot_size :: "addr \<Rightarrow> 64 word \<Rightarrow> el_ctl \<Rightarrow> el_ctl option" where
  "set_foot_size f v s = (if f = NULL then None else Some (s\<lparr>mem := store64 (mem s) f v\<rparr>))"

section \<open>Pointer arithmetic between adjacent headers and footers\<close>

definition el_get_footer :: "el_ctl \<Rightarrow> addr \<Rightarrow> addr option" where
  "el_get_footer s head = do {
     size \<leftarrow> get_size s head;
     Some (head + (sizeof_blockhead + size))
   }"

definition el_get_header :: "el_ctl \<Rightarrow> addr \<Rightarrow> addr option" where
  "el_get_header s foot = do {
     size \<leftarrow> get_foot_size s foot;
     Some (foot - (size + sizeof_blockhead))
   }"

definition el_block_above :: "el_ctl \<Rightarrow> addr \<Rightarrow> addr option" where
  "el_block_above s block = do {
     size \<leftarrow> get_size s block;
     let higher = block + (size + EL_BLOCK_OVERHEAD);
     if higher \<ge> heap_end s then Some NULL else Some higher
   }"

definition el_block_below :: "el_ctl \<Rightarrow> addr \<Rightarrow> addr option" where
  "el_block_below s block =
     (let prev_foot = block - sizeof_blockfoot in
      if prev_foot < heap_start s then Some NULL else el_get_header s prev_foot)"

section \<open>Block list operations\<close>

definition el_init_blocklist :: "listref \<Rightarrow> addr \<Rightarrow> addr \<Rightarrow> el_ctl \<Rightarrow> el_ctl option" where
  "el_init_blocklist r beg_actual end_actual s = do {
     let l = (get_list r s)\<lparr>beg := beg_actual\<rparr>;
     s \<leftarrow> set_state (beg l) EL_BEGIN_BLOCK s;
     s \<leftarrow> set_size (beg l) EL_UNINITIALIZED s;
     let l = l\<lparr>end' := end_actual\<rparr>;
     s \<leftarrow> set_state (end' l) EL_END_BLOCK s;
     s \<leftarrow> set_size (end' l) EL_UNINITIALIZED s;
     s \<leftarrow> set_next (beg l) (end' l) s;
     s \<leftarrow> set_prev (beg l) NULL s;
     s \<leftarrow> set_next (end' l) NULL s;
     s \<leftarrow> set_prev (end' l) (beg l) s;
     Some (put_list r (l\<lparr>length' := 0, bytes := 0\<rparr>) s)
   }"

definition el_add_block_front :: "listref \<Rightarrow> addr \<Rightarrow> el_ctl \<Rightarrow> el_ctl option" where
  "el_add_block_front r block s = do {
     s \<leftarrow> set_prev block (beg (get_list r s)) s;
     n \<leftarrow> get_next s (beg (get_list r s));
     s \<leftarrow> set_next block n s;
     p \<leftarrow> get_prev s block;
     s \<leftarrow> set_next p block s;
     n \<leftarrow> get_next s block;
     s \<leftarrow> set_prev n block s;
     size \<leftarrow> get_size s block;
     let l = get_list r s;
     Some (put_list r (l\<lparr>length' := length' l + 1,
                          bytes := bytes l + (EL_BLOCK_OVERHEAD + size)\<rparr>) s)
   }"

definition el_remove_block :: "listref \<Rightarrow> addr \<Rightarrow> el_ctl \<Rightarrow> el_ctl option" where
  "el_remove_block r block s = do {
     p \<leftarrow> get_prev s block;
     n \<leftarrow> get_next s block;
     s \<leftarrow> set_next p n s;
     n \<leftarrow> get_next s block;
     p \<leftarrow> get_prev s block;
     s \<leftarrow> set_prev n p s;
     size \<leftarrow> get_size s block;
     let l = get_list r s;
     Some (put_list r (l\<lparr>length' := length' l - 1,
                          bytes := bytes l - (EL_BLOCK_OVERHEAD + size)\<rparr>) s)
   }"

section \<open>Allocation\<close>

text \<open>
  The loop of \<^verbatim>\<open>el_find_first_avail\<close> runs \<^verbatim>\<open>avail->length\<close> times; the last argument of
  \<open>find_loop\<close> is the number of iterations left.  The counter of the source is an \<^verbatim>\<open>int\<close>
  compared with a \<^verbatim>\<open>size_t\<close>, so this is what the source does for lists of fewer than \<open>2^31\<close>
  blocks.  The test compares with the \<^verbatim>\<open>size_t\<close> sum \<^verbatim>\<open>size + EL_BLOCK_OVERHEAD\<close>, which wraps around.
\<close>

fun find_loop :: "el_ctl \<Rightarrow> 64 word \<Rightarrow> addr \<Rightarrow> nat \<Rightarrow> addr option" where
  "find_loop s size' start 0 = Some NULL"
| "find_loop s size' start (Suc k) = do {
     bsize \<leftarrow> get_size s start;
     if bsize \<ge> size' + EL_BLOCK_OVERHEAD then Some start
     else do { nxt \<leftarrow> get_next s start; find_loop s size' nxt k }
   }"

definition el_find_first_avail :: "el_ctl \<Rightarrow> 64 word \<Rightarrow> addr option" where
  "el_find_first_avail s size' = do {
     let total_avail = length' (avail s);
     start \<leftarrow> get_next s (beg (avail s));
     find_loop s size' start (unat total_avail)
   }"

definition el_split_block :: "addr \<Rightarrow> 64 word \<Rightarrow> el_ctl \<Rightarrow> (addr \<times> el_ctl) option" where
  "el_split_block block new_size s = do {
     bsize \<leftarrow> get_size s block;
     if bsize < new_size + EL_BLOCK_OVERHEAD \<or> block = NULL then Some (NULL, s)
     else do {
       size \<leftarrow> get_size s block;
       split_foot \<leftarrow> el_get_footer s block;
       let new_head = block + (new_size + sizeof_blockfoot + sizeof_blockhead);
       let new_foot = block + (new_size + sizeof_blockhead);
       s \<leftarrow> set_size block new_size s;
       s \<leftarrow> set_foot_size new_foot new_size s;
       s \<leftarrow> set_size new_head (size - new_size - EL_BLOCK_OVERHEAD) s;
       s \<leftarrow> set_foot_size split_foot (size - new_size - EL_BLOCK_OVERHEAD) s;
       Some (new_head, s)
     }
   }"

definition el_malloc :: "64 word \<Rightarrow> el_ctl \<Rightarrow> (addr \<times> el_ctl) option" where
  "el_malloc nbytes s = do {
     first \<leftarrow> el_find_first_avail s nbytes;
     if first = NULL then Some (NULL, s)
     else do {
       s \<leftarrow> el_remove_block AVAIL first s;
       (second, s) \<leftarrow> el_split_block first nbytes s;
       s \<leftarrow> el_add_block_front USED first s;
       s \<leftarrow> set_state first EL_USED s;
       s \<leftarrow> el_add_block_front AVAIL second s;
       s \<leftarrow> set_state second EL_AVAILABLE s;
       Some (first + sizeof_blockhead, s)
     }
   }"

section \<open>De-allocation\<close>

definition el_merge_block_with_above :: "addr \<Rightarrow> el_ctl \<Rightarrow> el_ctl option" where
  "el_merge_block_with_above lower s = do {
     above \<leftarrow> el_block_above s lower;
     if lower = NULL then Some s
     else do {
       lstate \<leftarrow> get_state s lower;
       if lstate \<noteq> EL_AVAILABLE \<or> above = NULL then Some s
       else do {
         astate \<leftarrow> get_state s above;
         if astate \<noteq> EL_AVAILABLE then Some s
         else do {
           size_lower \<leftarrow> get_size s lower;
           size_above \<leftarrow> get_size s above;
           let total = size_lower + size_above;
           above_foot \<leftarrow> el_get_footer s above;
           s \<leftarrow> el_remove_block AVAIL above s;
           s \<leftarrow> el_remove_block AVAIL lower s;
           s \<leftarrow> set_size lower (total + EL_BLOCK_OVERHEAD) s;
           s \<leftarrow> set_foot_size above_foot (total + EL_BLOCK_OVERHEAD) s;
           el_add_block_front AVAIL lower s
         }
       }
     }
   }"

definition el_free :: "addr \<Rightarrow> el_ctl \<Rightarrow> el_ctl option" where
  "el_free ptr s = do {
     let header_to_free = ptr - sizeof_blockhead;
     st \<leftarrow> get_state s header_to_free;
     if st = EL_AVAILABLE then Some s
     else do {
       before_block \<leftarrow> el_block_below s header_to_free;
       s \<leftarrow> el_remove_block USED header_to_free s;
       s \<leftarrow> set_state header_to_free EL_AVAILABLE s;
       s \<leftarrow> el_add_block_front AVAIL header_to_free s;
       s \<leftarrow> el_merge_block_with_above header_to_free s;
       if before_block \<noteq> NULL then el_merge_block_with_above before_block s else Some s
     }
   }"

section \<open>Initialisation\<close>

text \<open>
  \<^verbatim>\<open>el_init\<close> maps the arena at \<^verbatim>\<open>EL_HEAP_START_ADDRESS\<close> (the assertion of the source holds)
  and fills in \<^verbatim>\<open>el_ctl\<close>.  Its arguments are the addresses of the four sentinel nodes inside
  the global \<^verbatim>\<open>el_ctl\<close>, and the memory contents before the call.  \<open>Inl\<close> is the return
  value \<^verbatim>\<open>-1\<close>.
\<close>

record sentinels =
  avail_beg_actual :: addr
  avail_end_actual :: addr
  used_beg_actual :: addr
  used_end_actual :: addr

definition el_init :: "sentinels \<Rightarrow> memory \<Rightarrow> (unit + el_ctl) option" where
  "el_init g m = do {
     let heap = EL_HEAP_START_ADDRESS;
     let s = \<lparr>heap_start = heap, heap_end = heap + EL_HEAP_INITIAL_SIZE,
              heap_bytes = EL_HEAP_INITIAL_SIZE,
              avail = \<lparr>beg = NULL, end' = NULL, length' = 0, bytes = 0\<rparr>,
              used = \<lparr>beg = NULL, end' = NULL, length' = 0, bytes = 0\<rparr>,
              mem = m\<rparr>;
     if heap_bytes s < EL_BLOCK_OVERHEAD then Some (Inl ())
     else do {
       s \<leftarrow> el_init_blocklist AVAIL (avail_beg_actual g) (avail_end_actual g) s;
       s \<leftarrow> el_init_blocklist USED (used_beg_actual g) (used_end_actual g) s;
       let size = heap_bytes s - EL_BLOCK_OVERHEAD;
       let ablock = heap_start s;
       s \<leftarrow> set_size ablock size s;
       s \<leftarrow> set_state ablock EL_AVAILABLE s;
       afoot \<leftarrow> el_get_footer s ablock;
       s \<leftarrow> set_foot_size afoot size s;
       s \<leftarrow> el_add_block_front AVAIL ablock s;
       Some (Inr s)
     }
   }"

section \<open>Separation of memory cells\<close>

text \<open>Two 8-byte cells that do not overlap: neither address lies within 7 bytes above the other.\<close>

definition sep :: "addr \<Rightarrow> addr \<Rightarrow> bool" where
  "sep a b \<longleftrightarrow> 8 \<le> a - b \<and> 8 \<le> b - a"

section \<open>An example placement of the globals\<close>

text \<open>
  Addresses for the four sentinel nodes of the global \<^verbatim>\<open>el_ctl\<close>, as a linker could place
  them: \<^verbatim>\<open>el_ctl\<close> at \<^verbatim>\<open>0x4000\<close>, the lists behind its three leading 8-byte fields.
\<close>

definition example_globals :: sentinels where
  "example_globals = \<lparr>avail_beg_actual = 0x4018, avail_end_actual = 0x4038,
     used_beg_actual = 0x4078, used_end_actual = 0x4098\<rparr>"

section \<open>Headers and footers as fields\<close>

text \<open>
  The allocator reads and writes memory only through the fields of headers (32 bytes:
  \<^verbatim>\<open>size\<close>, \<^verbatim>\<open>state\<close>, \<^verbatim>\<open>next\<close>, \<^verbatim>\<open>prev\<close>) and footers (8 bytes: \<^verbatim>\<open>size\<close>).  A geometry is a set \<open>N\<close> of header
  addresses and a set \<open>F\<close> of footer addresses whose byte ranges do not wrap around the
  address space and do not overlap one another.  On a geometry a store to one field leaves
  every other field as it was, and the memory can be read as a record of field maps.
\<close>

definition geo :: "addr set \<Rightarrow> addr set \<Rightarrow> bool" where
  "geo N F \<longleftrightarrow>
     (\<forall>z\<in>N. z \<noteq> 0 \<and> unat z + 32 \<le> 2 ^ 64) \<and>
     (\<forall>f\<in>F. f \<noteq> 0 \<and> unat f + 8 \<le> 2 ^ 64) \<and>
     (\<forall>z\<in>N. \<forall>y\<in>N. z \<noteq> y \<longrightarrow> unat z + 32 \<le> unat y \<or> unat y + 32 \<le> unat z) \<and>
     (\<forall>z\<in>N. \<forall>f\<in>F. unat f + 8 \<le> unat z \<or> unat z + 32 \<le> unat f) \<and>
     (\<forall>f\<in>F. \<forall>f'\<in>F. f \<noteq> f' \<longrightarrow> unat f + 8 \<le> unat f' \<or> unat f' + 8 \<le> unat f)"

text \<open>The field maps, the reading of a memory as field maps, and agreement of the two on a geometry.\<close>

record view =
  v_size :: "addr \<Rightarrow> 64 word"
  v_state :: "addr \<Rightarrow> 8 word"
  v_next :: "addr \<Rightarrow> addr"
  v_prev :: "addr \<Rightarrow> addr"
  v_foot :: "addr \<Rightarrow> 64 word"

definition view_of :: "memory \<Rightarrow> view" where
  "view_of m = \<lparr>v_size = (\<lambda>z. load64 m z), v_state = (\<lambda>z. m (z + 8)),
     v_next = (\<lambda>z. load64 m (z + 16)), v_prev = (\<lambda>z. load64 m (z + 24)),
     v_foot = (\<lambda>f. load64 m f)\<rparr>"

definition same_on :: "addr set \<Rightarrow> addr set \<Rightarrow> memory \<Rightarrow> view \<Rightarrow> bool" where
  "same_on N F m H \<longleftrightarrow>
     (\<forall>z\<in>N. load64 m z = v_size H z \<and> m (z + 8) = v_state H z \<and>
        load64 m (z + 16) = v_next H z \<and> load64 m (z + 24) = v_prev H z) \<and>
     (\<forall>f\<in>F. load64 m f = v_foot H f)"

text \<open>
  A doubly linked chain: following \<open>nx\<close> from \<open>p\<close> visits \<open>xs\<close> and ends in \<open>q\<close>, and \<open>pv\<close> leads
  back the same way.
\<close>

fun dll :: "(addr \<Rightarrow> addr) \<Rightarrow> (addr \<Rightarrow> addr) \<Rightarrow> addr \<Rightarrow> addr list \<Rightarrow> addr \<Rightarrow> bool" where
  "dll nx pv p [] q \<longleftrightarrow> nx p = q \<and> pv q = p"
| "dll nx pv p (x # xs) q \<longleftrightarrow> nx p = x \<and> pv x = p \<and> dll nx pv x xs q"

definition next_of :: "el_ctl \<Rightarrow> addr \<Rightarrow> addr" where "next_of s z = load64 (mem s) (z + off_next)"
definition prev_of :: "el_ctl \<Rightarrow> addr \<Rightarrow> addr" where "prev_of s z = load64 (mem s) (z + off_prev)"
definition size_of :: "el_ctl \<Rightarrow> addr \<Rightarrow> 64 word" where "size_of s z = load64 (mem s) (z + off_size)"

text \<open>The blocks of a list, front to back: the nodes linked between its two sentinels.\<close>

definition list_blocks :: "el_ctl \<Rightarrow> listref \<Rightarrow> addr list \<Rightarrow> bool" where
  "list_blocks s r xs \<longleftrightarrow>
     dll (next_of s) (prev_of s) (beg (get_list r s)) xs (end' (get_list r s)) \<and>
     beg (get_list r s) \<noteq> NULL \<and> NULL \<notin> set xs \<and>
     length' (get_list r s) = of_nat (length xs) \<and> length xs < 2 ^ 31"

text \<open>
  What the loop of \<^verbatim>\<open>el_find_first_avail\<close> computes on the blocks of a list: the first block that
  passes the test of the source, \<^verbatim>\<open>start->size >= size + EL_BLOCK_OVERHEAD\<close>, where the sum is
  a \<^verbatim>\<open>size_t\<close> sum and wraps around.
\<close>

definition wrapped_fit :: "(addr \<Rightarrow> 64 word) \<Rightarrow> addr list \<Rightarrow> 64 word \<Rightarrow> addr option" where
  "wrapped_fit payload xs requested = find (\<lambda>b. payload b \<ge> requested + EL_BLOCK_OVERHEAD) xs"

text \<open>
  The reference scan, following the words of the spec: the first block whose payload size
  is at least the requested size plus the per-block overhead.  The sizes are numbers and the
  sum is their sum: it does not wrap around.
\<close>

definition first_fit :: "(addr \<Rightarrow> 64 word) \<Rightarrow> addr list \<Rightarrow> 64 word \<Rightarrow> addr option" where
  "first_fit payload xs requested =
     find (\<lambda>b. unat (payload b) \<ge> unat requested + unat EL_BLOCK_OVERHEAD) xs"

section \<open>The arena as a sequence of blocks\<close>

text \<open>
  A block is its header address, its payload size and whether it is available.  The blocks
  of a chain tile the byte range from \<open>a\<close> to \<open>e\<close>: each block takes its header, its payload
  and its footer (40 bytes of overhead) and the next block starts right behind it.
\<close>

type_synonym blk = "addr \<times> 64 word \<times> bool"

fun chain :: "nat \<Rightarrow> blk list \<Rightarrow> nat \<Rightarrow> bool" where
  "chain a [] e \<longleftrightarrow> a = e"
| "chain a ((b, sz, f) # bs) e \<longleftrightarrow> unat b = a \<and> chain (a + unat sz + 40) bs e"

definition block_addrs :: "blk list \<Rightarrow> addr set" where
  "block_addrs bs = fst ` set bs"

definition block_foots :: "blk list \<Rightarrow> addr set" where
  "block_foots bs = (\<lambda>(b, sz, f). b + (32 + sz)) ` set bs"

text \<open>
  The four sentinel nodes of the two lists live in the global \<^verbatim>\<open>el_ctl\<close>, outside the arena, and
  do not overlap.
\<close>

definition sentinel_set :: "el_ctl \<Rightarrow> addr set" where
  "sentinel_set s = {beg (avail s), end' (avail s), beg (used s), end' (used s)}"

definition sentinels_ok :: "el_ctl \<Rightarrow> bool" where
  "sentinels_ok s \<longleftrightarrow>
     distinct [beg (avail s), end' (avail s), beg (used s), end' (used s)] \<and>
     (\<forall>z\<in>sentinel_set s. z \<noteq> 0 \<and> unat z + 32 \<le> 2 ^ 64 \<and>
        (unat z + 32 \<le> unat (heap_start s) \<or> unat (heap_end s) \<le> unat z)) \<and>
     (\<forall>z\<in>sentinel_set s. \<forall>y\<in>sentinel_set s. z \<noteq> y \<longrightarrow>
        unat z + 32 \<le> unat y \<or> unat y + 32 \<le> unat z)"

text \<open>
  What the list operations and \<^verbatim>\<open>el_malloc\<close> do, on field maps: unlinking a node, linking a node
  behind the front sentinel \<open>b\<close>, and the six steps of an allocation that splits block \<open>x\<close>
  into \<open>x\<close> and \<open>y\<close> (with footers \<open>f1\<close> and \<open>f2\<close>).
\<close>

definition h_remove :: "addr \<Rightarrow> view \<Rightarrow> view" where
  "h_remove z H = H\<lparr>v_next := (v_next H)(v_prev H z := v_next H z),
                    v_prev := (v_prev H)(v_next H z := v_prev H z)\<rparr>"

definition h_add_front :: "addr \<Rightarrow> addr \<Rightarrow> view \<Rightarrow> view" where
  "h_add_front b z H = H\<lparr>v_next := (v_next H)(z := v_next H b, b := z),
                         v_prev := (v_prev H)(z := b, v_next H b := z)\<rparr>"

definition linked :: "view \<Rightarrow> addr \<Rightarrow> addr list \<Rightarrow> addr \<Rightarrow> bool" where
  "linked H b xs e \<longleftrightarrow> dll (v_next H) (v_prev H) b xs e \<and> distinct (b # xs @ [e])"

definition h_malloc :: "addr \<Rightarrow> addr \<Rightarrow> addr \<Rightarrow> addr \<Rightarrow> addr \<Rightarrow> addr \<Rightarrow> 64 word \<Rightarrow> view \<Rightarrow> view" where
  "h_malloc ba bu x y f1 f2 n H =
     (let H1 = h_remove x H;
          H2 = H1\<lparr>v_size := (v_size H1)(x := n, y := v_size H1 x - n - 40),
                  v_foot := (v_foot H1)(f1 := n, f2 := v_size H1 x - n - 40)\<rparr>;
          H3 = h_add_front bu x H2;
          H4 = H3\<lparr>v_state := (v_state H3)(x := EL_USED)\<rparr>;
          H5 = h_add_front ba y H4
      in H5\<lparr>v_state := (v_state H5)(y := EL_AVAILABLE)\<rparr>)"

text \<open>
  The invariant.  Headers and footers carry the sizes and states of the block sequence
  (\<^verbatim>\<open>tagged\<close>), the sequence tiles the arena (\<^verbatim>\<open>arena_ok\<close>), the available list links exactly the
  available blocks and the used list exactly the used ones (\<^verbatim>\<open>heap_ok\<close> and \<^verbatim>\<open>counts_ok\<close>), and
  the \<^verbatim>\<open>length\<close> and \<^verbatim>\<open>bytes\<close> fields of the lists are the number of members and the sum of
  payload plus overhead over the members.
\<close>

definition tag :: "bool \<Rightarrow> 8 word" where
  "tag f = (if f then EL_AVAILABLE else EL_USED)"

definition tagged :: "view \<Rightarrow> blk list \<Rightarrow> bool" where
  "tagged H bs \<longleftrightarrow> (\<forall>b sz f. (b, sz, f) \<in> set bs \<longrightarrow>
      v_size H b = sz \<and> v_foot H (b + (32 + sz)) = sz \<and> v_state H b = tag f)"

definition flagged :: "bool \<Rightarrow> blk list \<Rightarrow> addr set" where
  "flagged f bs = {b. \<exists>sz. (b, sz, f) \<in> set bs}"

definition lbytes :: "bool \<Rightarrow> blk list \<Rightarrow> 64 word" where
  "lbytes f bs = sum_list (map (\<lambda>(b, sz, g). 40 + sz) (filter (\<lambda>(b, sz, g). g = f) bs))"

definition arena_ok :: "el_ctl \<Rightarrow> blk list \<Rightarrow> bool" where
  "arena_ok s bs \<longleftrightarrow> 8 \<le> unat (heap_start s) \<and>
     unat (heap_start s) + unat (heap_bytes s) = unat (heap_end s) \<and>
     chain (unat (heap_start s)) bs (unat (heap_end s)) \<and> sentinels_ok s"

definition heap_ok :: "view \<Rightarrow> el_ctl \<Rightarrow> blk list \<Rightarrow> addr list \<Rightarrow> addr list \<Rightarrow> bool" where
  "heap_ok H s bs av us \<longleftrightarrow> tagged H bs \<and>
     linked H (beg (avail s)) av (end' (avail s)) \<and>
     linked H (beg (used s)) us (end' (used s))"

definition counts_ok :: "el_ctl \<Rightarrow> blk list \<Rightarrow> addr list \<Rightarrow> addr list \<Rightarrow> bool" where
  "counts_ok s bs av us \<longleftrightarrow> set av = flagged True bs \<and> set us = flagged False bs \<and>
     length' (avail s) = of_nat (length av) \<and> length' (used s) = of_nat (length us) \<and>
     bytes (avail s) = lbytes True bs \<and> bytes (used s) = lbytes False bs"

definition wf0 :: "el_ctl \<Rightarrow> blk list \<Rightarrow> addr list \<Rightarrow> addr list \<Rightarrow> bool" where
  "wf0 s bs av us \<longleftrightarrow> arena_ok s bs \<and> heap_ok (view_of (mem s)) s bs av us \<and> counts_ok s bs av us"

definition same_ctl :: "el_ctl \<Rightarrow> el_ctl \<Rightarrow> bool" where
  "same_ctl s s' \<longleftrightarrow> heap_start s' = heap_start s \<and> heap_end s' = heap_end s \<and>
     heap_bytes s' = heap_bytes s \<and> beg (avail s') = beg (avail s) \<and>
     end' (avail s') = end' (avail s) \<and> beg (used s') = beg (used s) \<and>
     end' (used s') = end' (used s)"

text \<open>What \<^verbatim>\<open>el_merge_block_with_above\<close> and the first half of \<^verbatim>\<open>el_free\<close> do, on field maps.\<close>

definition h_merge :: "addr \<Rightarrow> addr \<Rightarrow> addr \<Rightarrow> addr \<Rightarrow> view \<Rightarrow> view" where
  "h_merge ba lo ab fa H =
     (let H1 = h_remove ab H;
          H2 = h_remove lo H1;
          H3 = H2\<lparr>v_size := (v_size H2)(lo := v_size H lo + v_size H ab + 40),
                  v_foot := (v_foot H2)(fa := v_size H lo + v_size H ab + 40)\<rparr>
      in h_add_front ba lo H3)"

definition h_release :: "addr \<Rightarrow> addr \<Rightarrow> view \<Rightarrow> view" where
  "h_release ba h H =
     (let H1 = h_remove h H in h_add_front ba h (H1\<lparr>v_state := (v_state H1)(h := EL_AVAILABLE)\<rparr>))"

text \<open>No two blocks next to each other in the arena are both available.\<close>

fun coalesced :: "blk list \<Rightarrow> bool" where
  "coalesced ((b, sz, f) # (b', sz', f') # r) \<longleftrightarrow> \<not> (f \<and> f') \<and> coalesced ((b', sz', f') # r)"
| "coalesced [v] \<longleftrightarrow> True"
| "coalesced [] \<longleftrightarrow> True"

text \<open>Sentinel addresses that \<^verbatim>\<open>el_init\<close> can work with: four nodes apart from each other and from the arena.\<close>

definition good_globals :: "sentinels \<Rightarrow> bool" where
  "good_globals g \<longleftrightarrow>
     (let S = [avail_beg_actual g, avail_end_actual g, used_beg_actual g, used_end_actual g] in
      distinct S \<and>
      (\<forall>z\<in>set S. z \<noteq> 0 \<and> unat z + 32 \<le> 2 ^ 64 \<and>
         (unat z + 32 \<le> unat EL_HEAP_START_ADDRESS \<or>
          unat EL_HEAP_START_ADDRESS + unat EL_HEAP_INITIAL_SIZE \<le> unat z)) \<and>
      (\<forall>z\<in>set S. \<forall>y\<in>set S. z \<noteq> y \<longrightarrow> unat z + 32 \<le> unat y \<or> unat y + 32 \<le> unat z))"

section \<open>Reachable states\<close>

text \<open>
  The states the public operations lead to: \<^verbatim>\<open>el_init\<close> on any memory, then calls of \<^verbatim>\<open>el_malloc\<close>
  and \<^verbatim>\<open>el_free\<close>.  The third component is the set of pointers that \<^verbatim>\<open>el_malloc\<close> has returned and
  that have not been freed yet.  A request must leave room for the overhead in a \<^verbatim>\<open>size_t\<close>
  (the sum \<open>n + EL_BLOCK_OVERHEAD\<close> of the source does not wrap around), and only a pointer
  that is currently allocated is freed.  Between the calls the caller may write any byte of
  the payload of a block that is currently allocated.
\<close>

inductive reach :: "sentinels \<Rightarrow> el_ctl \<Rightarrow> addr set \<Rightarrow> bool" for g where
  reach_init: "good_globals g \<Longrightarrow> el_init g m = Some (Inr s) \<Longrightarrow> reach g s {}"
| reach_malloc: "reach g s L \<Longrightarrow> unat n + unat EL_BLOCK_OVERHEAD < 2 ^ 64 \<Longrightarrow>
     el_malloc n s = Some (p, s') \<Longrightarrow> reach g s' (if p = NULL then L else insert p L)"
| reach_free: "reach g s L \<Longrightarrow> p \<in> L \<Longrightarrow> el_free p s = Some s' \<Longrightarrow> reach g s' (L - {p})"
| reach_write: "reach g s L \<Longrightarrow> p \<in> L \<Longrightarrow> get_size s (p - sizeof_blockhead) = Some sz \<Longrightarrow>
     unat (a - p) < unat sz \<Longrightarrow> reach g (s\<lparr>mem := (mem s)(a := v)\<rparr>) L"

section \<open>Concrete states\<close>

text \<open>
  The heap right after \<^verbatim>\<open>el_init\<close> with the example globals on a zeroed memory, and the results
  of the operations on states where they return.  In \<open>written_heap\<close> the caller has allocated
  100 bytes and written one byte of them.
\<close>

definition zero_memory :: memory where
  "zero_memory = (\<lambda>_. 0)"

definition fresh_heap :: el_ctl where
  "fresh_heap = projr (the (el_init example_globals zero_memory))"

definition malloc_ptr :: "64 word \<Rightarrow> el_ctl \<Rightarrow> addr" where
  "malloc_ptr n s = fst (the (el_malloc n s))"

definition malloc_state :: "64 word \<Rightarrow> el_ctl \<Rightarrow> el_ctl" where
  "malloc_state n s = snd (the (el_malloc n s))"


text \<open>
  The block sequence that the headers and footers of the arena describe, and the partition
  invariant: every block of the arena is in exactly one of the two lists, by its state.
\<close>

definition written_heap :: el_ctl where
  "written_heap = (malloc_state 100 fresh_heap)\<lparr>mem :=
     (mem (malloc_state 100 fresh_heap))(0x600000000025 := 255)\<rparr>"

definition arena_blocks :: "el_ctl \<Rightarrow> blk list \<Rightarrow> bool" where
  "arena_blocks s bs \<longleftrightarrow>
     chain (unat (heap_start s)) bs (unat (heap_end s)) \<and> tagged (view_of (mem s)) bs"


section \<open>Loads and stores\<close>

lemma unat_diff_flip:
  fixes a b :: addr
  assumes "a \<noteq> b"
  shows "unat (a - b) + unat (b - a) = 2 ^ 64"
proof -
  have la: "unat a < 2 ^ 64" and lb: "unat b < 2 ^ 64"
    using unsigned_less [of a, where ?'a = nat] unsigned_less [of b, where ?'a = nat]
    by simp_all
  have ne: "unat a \<noteq> unat b" using assms by (simp add: word_unat_eq_iff)
  show ?thesis using la lb ne by (simp add: unat_sub_if_size word_size)
qed

lemma offset_outside:
  fixes a b :: addr
  assumes "8 \<le> b - a" "8 \<le> a - b" "i < 8"
  shows "\<not> (b + i - a < 8)"
proof -
  define d where "d = b - a"
  have e: "b + i - a = d + i" by (simp add: d_def)
  have ne: "a \<noteq> b" using assms(1) by auto
  have 1: "8 \<le> unat d" using assms(1) by (simp add: d_def word_le_nat_alt)
  have 2: "unat d \<le> 2 ^ 64 - 8" using assms(2) unat_diff_flip [OF ne]
    by (simp add: word_le_nat_alt d_def)
  have 3: "unat i < 8" using assms(3) by (simp add: word_less_nat_alt)
  have "unat (d + i) = unat d + unat i"
    using 2 3 by (simp add: unat_add_lem [THEN iffD1])
  then show ?thesis unfolding e using 1 by (simp add: word_less_nat_alt)
qed

lemma low_byte_split: "(x :: 64 word) = take_bit 8 x OR push_bit 8 (drop_bit 8 x)"
proof (rule bit_word_eqI)
  fix n assume "n < LENGTH(64)"
  show "bit x n = bit (take_bit 8 x OR push_bit 8 (drop_bit 8 x)) n"
    by (cases "n < 8") (auto simp: bit_simps dest: bit_imp_le_length)
qed

lemma ucast_byte: "(ucast (ucast (x :: 64 word) :: 8 word) :: 64 word) = take_bit 8 x"
  by (rule bit_word_eqI) (auto simp: bit_simps)

lemma top_byte: "drop_bit 56 (x :: 64 word) = take_bit 8 (drop_bit 56 x)"
  by (rule bit_word_eqI) (auto simp: bit_simps dest: bit_imp_le_length)

lemma store64_at: "i < 8 \<Longrightarrow> store64 m a v (a + i) = byte_of v (unat i)"
  by (simp add: store64_def)

lemma load64_store64_same [simp]: "load64 (store64 m a v) a = v"
proof -
  have b: "store64 m a v a = byte_of v 0" using store64_at [of 0 m a v] by simp
  have "load64 (store64 m a v) a = take_bit 8 v OR push_bit 8 (take_bit 8 (drop_bit 8 v)
     OR push_bit 8 (take_bit 8 (drop_bit 16 v) OR push_bit 8 (take_bit 8 (drop_bit 24 v)
     OR push_bit 8 (take_bit 8 (drop_bit 32 v) OR push_bit 8 (take_bit 8 (drop_bit 40 v)
     OR push_bit 8 (take_bit 8 (drop_bit 48 v) OR push_bit 8 (take_bit 8 (drop_bit 56 v))))))))"
    unfolding load64_def b
    by (simp add: store64_at [of 1, simplified] store64_at [of 2, simplified]
        store64_at [of 3, simplified] store64_at [of 4, simplified]
        store64_at [of 5, simplified] store64_at [of 6, simplified]
        store64_at [of 7, simplified] byte_of_def ucast_byte push_bit_or
        del: push_bit_take_bit)
  also have "\<dots> = v"
    using low_byte_split [of v] low_byte_split [of "drop_bit 8 v"]
      low_byte_split [of "drop_bit 16 v"] low_byte_split [of "drop_bit 24 v"]
      low_byte_split [of "drop_bit 32 v"] low_byte_split [of "drop_bit 40 v"]
      low_byte_split [of "drop_bit 48 v"] top_byte [of v]
    by (simp add: drop_bit_drop_bit)
  finally show ?thesis .
qed

lemma load64_store64_sep: "sep a b \<Longrightarrow> load64 (store64 m a v) b = load64 m b"
proof -
  assume "sep a b"
  then have d: "8 \<le> b - a" "8 \<le> a - b" by (simp_all add: sep_def)
  have "\<And>i. i < 8 \<Longrightarrow> store64 m a v (b + i) = m (b + i)"
    using offset_outside [OF d] by (simp add: store64_def)
  then show ?thesis unfolding load64_def
    using offset_outside [OF d, of 0] by (simp add: store64_def)
qed

lemma byte_store64_outside: "8 \<le> b - a \<Longrightarrow> store64 m a v b = m b"
  by (simp add: store64_def not_less [symmetric])

lemma load64_upd_outside: "8 \<le> a - b \<Longrightarrow> load64 (m(a := v)) b = load64 m b"
proof -
  assume h: "8 \<le> a - b"
  have n: "i < 8 \<Longrightarrow> b + i \<noteq> a" for i
  proof
    assume "i < 8" "b + i = a"
    then show False using h by auto
  qed
  show ?thesis
    using n [of 0] n [of 1] n [of 2] n [of 3] n [of 4] n [of 5] n [of 6] n [of 7]
    by (simp add: load64_def)
qed

text \<open>A byte written into the lowest byte of a cell, and the lowest byte of a cell read back.\<close>

lemma byte_store64_same: "store64 m a v a = ucast v"
  by (simp add: store64_def byte_of_def)

lemma push_drop_push: "push_bit 8 (drop_bit 8 (push_bit 8 (q :: 64 word))) = push_bit 8 q"
  by (rule bit_word_eqI) (auto simp: bit_simps)

lemma drop_byte: "drop_bit 8 (ucast (b :: 8 word) :: 64 word) = 0"
  by (rule bit_word_eqI) (auto simp: bit_simps dest: bit_imp_le_length)

lemma load64_upd_same:
  "load64 (m(a := v)) a = ucast v OR push_bit 8 (drop_bit 8 (load64 m a))"
proof -
  define q :: "64 word" where "q = ucast (m (a + 1)) OR push_bit 8 (ucast (m (a + 2)))
     OR push_bit 16 (ucast (m (a + 3))) OR push_bit 24 (ucast (m (a + 4)))
     OR push_bit 32 (ucast (m (a + 5))) OR push_bit 40 (ucast (m (a + 6)))
     OR push_bit 48 (ucast (m (a + 7)))"
  have p: "push_bit 8 q = push_bit 8 (ucast (m (a + 1))) OR push_bit 16 (ucast (m (a + 2)))
     OR push_bit 24 (ucast (m (a + 3))) OR push_bit 32 (ucast (m (a + 4)))
     OR push_bit 40 (ucast (m (a + 5))) OR push_bit 48 (ucast (m (a + 6)))
     OR push_bit 56 (ucast (m (a + 7)))"
    unfolding q_def by (simp add: push_bit_or flip: push_bit_add)
  have 1: "load64 m a = ucast (m a) OR push_bit 8 q"
    unfolding p by (simp add: load64_def ac_simps)
  have n: "a + i \<noteq> a" if "i \<noteq> 0" for i :: addr using that by simp
  have z: "(1 :: addr) \<noteq> 0" "(2 :: addr) \<noteq> 0" "(3 :: addr) \<noteq> 0" "(4 :: addr) \<noteq> 0"
    "(5 :: addr) \<noteq> 0" "(6 :: addr) \<noteq> 0" "(7 :: addr) \<noteq> 0" by simp_all
  have e: "(m(a := v)) (a + 1) = m (a + 1)" "(m(a := v)) (a + 2) = m (a + 2)"
    "(m(a := v)) (a + 3) = m (a + 3)" "(m(a := v)) (a + 4) = m (a + 4)"
    "(m(a := v)) (a + 5) = m (a + 5)" "(m(a := v)) (a + 6) = m (a + 6)"
    "(m(a := v)) (a + 7) = m (a + 7)"
    using n [OF z(1)] n [OF z(2)] n [OF z(3)] n [OF z(4)] n [OF z(5)] n [OF z(6)] n [OF z(7)]
    by (simp_all only: fun_upd_apply if_False)
  have 2: "load64 (m(a := v)) a = ucast v OR push_bit 8 q"
    unfolding p load64_def e by (simp only: fun_upd_same ac_simps)
  show ?thesis unfolding 1 2 by (simp add: drop_bit_or drop_byte push_drop_push)
qed

section \<open>Running the allocator on concrete states\<close>

lemmas el_constants =
  sizeof_blockhead_def sizeof_blockfoot_def EL_BLOCK_OVERHEAD_def EL_AVAILABLE_def EL_USED_def
  EL_BEGIN_BLOCK_def EL_END_BLOCK_def EL_UNINITIALIZED_def EL_HEAP_INITIAL_SIZE_def
  EL_HEAP_START_ADDRESS_def NULL_def off_size_def off_state_def off_next_def off_prev_def

lemmas el_fields =
  get_size_def get_state_def get_next_def get_prev_def set_size_def set_state_def
  set_next_def set_prev_def get_foot_size_def set_foot_size_def

lemmas el_functions =
  el_get_footer_def el_get_header_def el_block_above_def el_block_below_def
  el_init_blocklist_def el_add_block_front_def el_remove_block_def el_find_first_avail_def
  el_split_block_def el_malloc_def el_merge_block_with_above_def el_free_def el_init_def

lemmas el_memory = load64_store64_sep byte_store64_outside load64_upd_outside sep_def

lemmas el_run = el_functions el_fields el_constants el_memory Let_def

lemma find_loop_numeral:
  "find_loop s sz start (numeral k) = do {
     bsize \<leftarrow> get_size s start;
     if bsize \<ge> sz + EL_BLOCK_OVERHEAD then Some start
     else do { nxt \<leftarrow> get_next s start; find_loop s sz nxt (pred_numeral k) }
   }"
  by (simp add: numeral_eq_Suc)

section \<open>Stores to one field leave the other fields alone\<close>

lemma unat_plus_small:
  fixes a :: addr
  shows "unat a + k \<le> 2 ^ 64 \<Longrightarrow> j < k \<Longrightarrow> unat (a + of_nat j) = unat a + j"
  by (simp add: unat_word_ariths unat_of_nat)

lemma sepI:
  fixes a b :: addr
  assumes "unat a + 8 \<le> unat b \<or> unat b + 8 \<le> unat a"
    and "unat a + 8 \<le> 2 ^ 64" "unat b + 8 \<le> 2 ^ 64"
  shows "sep a b"
proof -
  have ne: "a \<noteq> b" using assms by auto
  have la: "unat a < 2 ^ 64" and lb: "unat b < 2 ^ 64"
    using unsigned_less [of a, where ?'a = nat] unsigned_less [of b, where ?'a = nat]
    by simp_all
  show ?thesis using assms la lb
    by (auto simp add: sep_def word_le_nat_alt unat_sub_if_size word_size)
qed

lemma ge8I:
  fixes a b :: addr
  assumes "unat a + 8 \<le> unat b \<or> unat b < unat a"
    and "unat a + 8 \<le> 2 ^ 64"
  shows "8 \<le> b - a"
proof -
  have la: "unat a < 2 ^ 64" and lb: "unat b < 2 ^ 64"
    using unsigned_less [of a, where ?'a = nat] unsigned_less [of b, where ?'a = nat]
    by simp_all
  show ?thesis using assms la lb
    by (auto simp add: word_le_nat_alt unat_sub_if_size word_size)
qed

lemma geo_nodeD:
  assumes "geo N F" "z \<in> N"
  shows "z \<noteq> 0" "unat z + 32 \<le> 2 ^ 64" "unat (z + 8) = unat z + 8"
    "unat (z + 16) = unat z + 16" "unat (z + 24) = unat z + 24"
proof -
  show a: "z \<noteq> 0" and b: "unat z + 32 \<le> 2 ^ 64" using assms by (auto simp: geo_def)
  show "unat (z + 8) = unat z + 8" using unat_plus_small [OF b, of 8] by simp
  show "unat (z + 16) = unat z + 16" using unat_plus_small [OF b, of 16] by simp
  show "unat (z + 24) = unat z + 24" using unat_plus_small [OF b, of 24] by simp
qed

lemma geo_footD:
  assumes "geo N F" "f \<in> F"
  shows "f \<noteq> 0" "unat f + 8 \<le> 2 ^ 64"
  using assms by (auto simp: geo_def)

lemma geo_nn:
  "geo N F \<Longrightarrow> z \<in> N \<Longrightarrow> y \<in> N \<Longrightarrow> z \<noteq> y \<Longrightarrow>
     unat z + 32 \<le> unat y \<or> unat y + 32 \<le> unat z"
  by (auto simp: geo_def)

lemma geo_nf:
  "geo N F \<Longrightarrow> z \<in> N \<Longrightarrow> f \<in> F \<Longrightarrow> unat f + 8 \<le> unat z \<or> unat z + 32 \<le> unat f"
  by (auto simp: geo_def)

lemma geo_ff:
  "geo N F \<Longrightarrow> f \<in> F \<Longrightarrow> f' \<in> F \<Longrightarrow> f \<noteq> f' \<Longrightarrow>
     unat f + 8 \<le> unat f' \<or> unat f' + 8 \<le> unat f"
  by (auto simp: geo_def)

lemma st_size_ld_size:
  "geo N F \<Longrightarrow> z \<in> N \<Longrightarrow> y \<in> N \<Longrightarrow> 
     load64 (store64 m z v) y = (if y = z then v else load64 m y)"
  using geo_nodeD [of N F z] geo_nodeD [of N F y] geo_nn [of N F z y]
  by (cases "z = y") (auto intro!: load64_store64_sep sepI load64_upd_outside byte_store64_outside ge8I)

lemma st_size_ld_state:
  "geo N F \<Longrightarrow> z \<in> N \<Longrightarrow> y \<in> N \<Longrightarrow> 
     (store64 m z v) (y + 8) = m (y + 8)"
  using geo_nodeD [of N F z] geo_nodeD [of N F y] geo_nn [of N F z y]
  by (cases "z = y") (auto intro!: load64_store64_sep sepI load64_upd_outside byte_store64_outside ge8I)

lemma st_size_ld_next:
  "geo N F \<Longrightarrow> z \<in> N \<Longrightarrow> y \<in> N \<Longrightarrow> 
     load64 (store64 m z v) (y + 16) = load64 m (y + 16)"
  using geo_nodeD [of N F z] geo_nodeD [of N F y] geo_nn [of N F z y]
  by (cases "z = y") (auto intro!: load64_store64_sep sepI load64_upd_outside byte_store64_outside ge8I)

lemma st_size_ld_prev:
  "geo N F \<Longrightarrow> z \<in> N \<Longrightarrow> y \<in> N \<Longrightarrow> 
     load64 (store64 m z v) (y + 24) = load64 m (y + 24)"
  using geo_nodeD [of N F z] geo_nodeD [of N F y] geo_nn [of N F z y]
  by (cases "z = y") (auto intro!: load64_store64_sep sepI load64_upd_outside byte_store64_outside ge8I)

lemma st_size_ld_foot:
  "geo N F \<Longrightarrow> z \<in> N \<Longrightarrow> f' \<in> F \<Longrightarrow> 
     load64 (store64 m z v) f' = load64 m f'"
  using geo_nodeD [of N F z] geo_footD [of N F f'] geo_nf [of N F z f']
  by (auto intro!: load64_store64_sep sepI load64_upd_outside byte_store64_outside ge8I)

lemma st_state_ld_size:
  "geo N F \<Longrightarrow> z \<in> N \<Longrightarrow> y \<in> N \<Longrightarrow> 
     load64 (m(z + 8 := v)) y = load64 m y"
  using geo_nodeD [of N F z] geo_nodeD [of N F y] geo_nn [of N F z y]
  by (cases "z = y") (auto intro!: load64_store64_sep sepI load64_upd_outside byte_store64_outside ge8I)

lemma st_state_ld_state:
  "geo N F \<Longrightarrow> z \<in> N \<Longrightarrow> y \<in> N \<Longrightarrow> 
     (m(z + 8 := v)) (y + 8) = (if y = z then v else m (y + 8))"
  using geo_nodeD [of N F z] geo_nodeD [of N F y] geo_nn [of N F z y]
  by (cases "z = y") (auto intro!: load64_store64_sep sepI load64_upd_outside byte_store64_outside ge8I)

lemma st_state_ld_next:
  "geo N F \<Longrightarrow> z \<in> N \<Longrightarrow> y \<in> N \<Longrightarrow> 
     load64 (m(z + 8 := v)) (y + 16) = load64 m (y + 16)"
  using geo_nodeD [of N F z] geo_nodeD [of N F y] geo_nn [of N F z y]
  by (cases "z = y") (auto intro!: load64_store64_sep sepI load64_upd_outside byte_store64_outside ge8I)

lemma st_state_ld_prev:
  "geo N F \<Longrightarrow> z \<in> N \<Longrightarrow> y \<in> N \<Longrightarrow> 
     load64 (m(z + 8 := v)) (y + 24) = load64 m (y + 24)"
  using geo_nodeD [of N F z] geo_nodeD [of N F y] geo_nn [of N F z y]
  by (cases "z = y") (auto intro!: load64_store64_sep sepI load64_upd_outside byte_store64_outside ge8I)

lemma st_state_ld_foot:
  "geo N F \<Longrightarrow> z \<in> N \<Longrightarrow> f' \<in> F \<Longrightarrow> 
     load64 (m(z + 8 := v)) f' = load64 m f'"
  using geo_nodeD [of N F z] geo_footD [of N F f'] geo_nf [of N F z f']
  by (auto intro!: load64_store64_sep sepI load64_upd_outside byte_store64_outside ge8I)

lemma st_next_ld_size:
  "geo N F \<Longrightarrow> z \<in> N \<Longrightarrow> y \<in> N \<Longrightarrow> 
     load64 (store64 m (z + 16) v) y = load64 m y"
  using geo_nodeD [of N F z] geo_nodeD [of N F y] geo_nn [of N F z y]
  by (cases "z = y") (auto intro!: load64_store64_sep sepI load64_upd_outside byte_store64_outside ge8I)

lemma st_next_ld_state:
  "geo N F \<Longrightarrow> z \<in> N \<Longrightarrow> y \<in> N \<Longrightarrow> 
     (store64 m (z + 16) v) (y + 8) = m (y + 8)"
  using geo_nodeD [of N F z] geo_nodeD [of N F y] geo_nn [of N F z y]
  by (cases "z = y") (auto intro!: load64_store64_sep sepI load64_upd_outside byte_store64_outside ge8I)

lemma st_next_ld_next:
  "geo N F \<Longrightarrow> z \<in> N \<Longrightarrow> y \<in> N \<Longrightarrow> 
     load64 (store64 m (z + 16) v) (y + 16) = (if y = z then v else load64 m (y + 16))"
  using geo_nodeD [of N F z] geo_nodeD [of N F y] geo_nn [of N F z y]
  by (cases "z = y") (auto intro!: load64_store64_sep sepI load64_upd_outside byte_store64_outside ge8I)

lemma st_next_ld_prev:
  "geo N F \<Longrightarrow> z \<in> N \<Longrightarrow> y \<in> N \<Longrightarrow> 
     load64 (store64 m (z + 16) v) (y + 24) = load64 m (y + 24)"
  using geo_nodeD [of N F z] geo_nodeD [of N F y] geo_nn [of N F z y]
  by (cases "z = y") (auto intro!: load64_store64_sep sepI load64_upd_outside byte_store64_outside ge8I)

lemma st_next_ld_foot:
  "geo N F \<Longrightarrow> z \<in> N \<Longrightarrow> f' \<in> F \<Longrightarrow> 
     load64 (store64 m (z + 16) v) f' = load64 m f'"
  using geo_nodeD [of N F z] geo_footD [of N F f'] geo_nf [of N F z f']
  by (auto intro!: load64_store64_sep sepI load64_upd_outside byte_store64_outside ge8I)

lemma st_prev_ld_size:
  "geo N F \<Longrightarrow> z \<in> N \<Longrightarrow> y \<in> N \<Longrightarrow> 
     load64 (store64 m (z + 24) v) y = load64 m y"
  using geo_nodeD [of N F z] geo_nodeD [of N F y] geo_nn [of N F z y]
  by (cases "z = y") (auto intro!: load64_store64_sep sepI load64_upd_outside byte_store64_outside ge8I)

lemma st_prev_ld_state:
  "geo N F \<Longrightarrow> z \<in> N \<Longrightarrow> y \<in> N \<Longrightarrow> 
     (store64 m (z + 24) v) (y + 8) = m (y + 8)"
  using geo_nodeD [of N F z] geo_nodeD [of N F y] geo_nn [of N F z y]
  by (cases "z = y") (auto intro!: load64_store64_sep sepI load64_upd_outside byte_store64_outside ge8I)

lemma st_prev_ld_next:
  "geo N F \<Longrightarrow> z \<in> N \<Longrightarrow> y \<in> N \<Longrightarrow> 
     load64 (store64 m (z + 24) v) (y + 16) = load64 m (y + 16)"
  using geo_nodeD [of N F z] geo_nodeD [of N F y] geo_nn [of N F z y]
  by (cases "z = y") (auto intro!: load64_store64_sep sepI load64_upd_outside byte_store64_outside ge8I)

lemma st_prev_ld_prev:
  "geo N F \<Longrightarrow> z \<in> N \<Longrightarrow> y \<in> N \<Longrightarrow> 
     load64 (store64 m (z + 24) v) (y + 24) = (if y = z then v else load64 m (y + 24))"
  using geo_nodeD [of N F z] geo_nodeD [of N F y] geo_nn [of N F z y]
  by (cases "z = y") (auto intro!: load64_store64_sep sepI load64_upd_outside byte_store64_outside ge8I)

lemma st_prev_ld_foot:
  "geo N F \<Longrightarrow> z \<in> N \<Longrightarrow> f' \<in> F \<Longrightarrow> 
     load64 (store64 m (z + 24) v) f' = load64 m f'"
  using geo_nodeD [of N F z] geo_footD [of N F f'] geo_nf [of N F z f']
  by (auto intro!: load64_store64_sep sepI load64_upd_outside byte_store64_outside ge8I)

lemma st_foot_ld_size:
  "geo N F \<Longrightarrow> f \<in> F \<Longrightarrow> y \<in> N \<Longrightarrow> 
     load64 (store64 m f v) y = load64 m y"
  using geo_footD [of N F f] geo_nodeD [of N F y] geo_nf [of N F y f]
  by (auto intro!: load64_store64_sep sepI load64_upd_outside byte_store64_outside ge8I)

lemma st_foot_ld_state:
  "geo N F \<Longrightarrow> f \<in> F \<Longrightarrow> y \<in> N \<Longrightarrow> 
     (store64 m f v) (y + 8) = m (y + 8)"
  using geo_footD [of N F f] geo_nodeD [of N F y] geo_nf [of N F y f]
  by (auto intro!: load64_store64_sep sepI load64_upd_outside byte_store64_outside ge8I)

lemma st_foot_ld_next:
  "geo N F \<Longrightarrow> f \<in> F \<Longrightarrow> y \<in> N \<Longrightarrow> 
     load64 (store64 m f v) (y + 16) = load64 m (y + 16)"
  using geo_footD [of N F f] geo_nodeD [of N F y] geo_nf [of N F y f]
  by (auto intro!: load64_store64_sep sepI load64_upd_outside byte_store64_outside ge8I)

lemma st_foot_ld_prev:
  "geo N F \<Longrightarrow> f \<in> F \<Longrightarrow> y \<in> N \<Longrightarrow> 
     load64 (store64 m f v) (y + 24) = load64 m (y + 24)"
  using geo_footD [of N F f] geo_nodeD [of N F y] geo_nf [of N F y f]
  by (auto intro!: load64_store64_sep sepI load64_upd_outside byte_store64_outside ge8I)

lemma st_foot_ld_foot:
  "geo N F \<Longrightarrow> f \<in> F \<Longrightarrow> f' \<in> F \<Longrightarrow> 
     load64 (store64 m f v) f' = (if f' = f then v else load64 m f')"
  using geo_footD [of N F f] geo_footD [of N F f'] geo_ff [of N F f f']
  by (cases "f = f'") (auto intro!: load64_store64_sep sepI load64_upd_outside byte_store64_outside ge8I)

section \<open>The operations on field maps\<close>

text \<open>
  On a geometry that holds the nodes an operation touches, the operation returns, and the
  memory it leaves agrees with the field maps updated as the source updates the fields.
\<close>

lemmas frame = st_size_ld_size st_size_ld_state st_size_ld_next st_size_ld_prev st_size_ld_foot
  st_state_ld_size st_state_ld_state st_state_ld_next st_state_ld_prev st_state_ld_foot
  st_next_ld_size st_next_ld_state st_next_ld_next st_next_ld_prev st_next_ld_foot
  st_prev_ld_size st_prev_ld_state st_prev_ld_next st_prev_ld_prev st_prev_ld_foot
  st_foot_ld_size st_foot_ld_state st_foot_ld_next st_foot_ld_prev st_foot_ld_foot

lemmas el_prims = el_fields el_constants Let_def

lemma el_add_block_front_result:
  assumes g: "geo N F" and z: "z \<in> N" and b: "beg (get_list r s) \<in> N"
    and n: "load64 (mem s) (beg (get_list r s) + 16) \<in> N" and ne: "z \<noteq> beg (get_list r s)"
  shows "el_add_block_front r z s =
    Some (put_list r ((get_list r s)\<lparr>length' := length' (get_list r s) + 1,
            bytes := bytes (get_list r s) + (40 + load64 (mem s) z)\<rparr>)
      (s\<lparr>mem := store64 (store64 (store64 (store64 (mem s) (z + 24) (beg (get_list r s)))
          (z + 16) (load64 (mem s) (beg (get_list r s) + 16)))
          (beg (get_list r s) + 16) z) (load64 (mem s) (beg (get_list r s) + 16) + 24) z\<rparr>))"
proof -
  note [simp] = frame [OF g] geo_nodeD(1) [OF g]
  show ?thesis using z b n ne
    by (cases r) (simp_all add: el_add_block_front_def el_prims)
qed

lemma el_remove_block_result:
  assumes g: "geo N F" and z: "z \<in> N"
    and p: "load64 (mem s) (z + 24) \<in> N" and n: "load64 (mem s) (z + 16) \<in> N"
  shows "el_remove_block r z s =
    Some (put_list r ((get_list r s)\<lparr>length' := length' (get_list r s) - 1,
            bytes := bytes (get_list r s) - (40 + load64 (mem s) z)\<rparr>)
      (s\<lparr>mem := store64 (store64 (mem s) (load64 (mem s) (z + 24) + 16) (load64 (mem s) (z + 16)))
          (load64 (mem s) (z + 16) + 24) (load64 (mem s) (z + 24))\<rparr>))"
proof -
  note [simp] = frame [OF g] geo_nodeD(1) [OF g]
  show ?thesis using z p n
    by (cases r) (simp_all add: el_remove_block_def el_prims)
qed

lemma same_on_view_of: "same_on N F m (view_of m)"
  by (simp add: same_on_def view_of_def)

lemma same_onD:
  assumes "same_on N F m H"
  shows "z \<in> N \<Longrightarrow> load64 m z = v_size H z" "z \<in> N \<Longrightarrow> m (z + 8) = v_state H z"
    "z \<in> N \<Longrightarrow> load64 m (z + 16) = v_next H z" "z \<in> N \<Longrightarrow> load64 m (z + 24) = v_prev H z"
    "f \<in> F \<Longrightarrow> load64 m f = v_foot H f"
  using assms by (auto simp: same_on_def)

lemma same_on_set_size:
  "geo N F \<Longrightarrow> same_on N F m H \<Longrightarrow> z \<in> N \<Longrightarrow>
     same_on N F (store64 m z v) (H\<lparr>v_size := (v_size H)(z := v)\<rparr>)"
  by (simp add: same_on_def frame)

lemma same_on_set_state:
  "geo N F \<Longrightarrow> same_on N F m H \<Longrightarrow> z \<in> N \<Longrightarrow>
     same_on N F (m(z + 8 := v)) (H\<lparr>v_state := (v_state H)(z := v)\<rparr>)"
  by (simp add: same_on_def frame)

lemma same_on_set_next:
  "geo N F \<Longrightarrow> same_on N F m H \<Longrightarrow> z \<in> N \<Longrightarrow>
     same_on N F (store64 m (z + 16) v) (H\<lparr>v_next := (v_next H)(z := v)\<rparr>)"
  by (simp add: same_on_def frame)

lemma same_on_set_prev:
  "geo N F \<Longrightarrow> same_on N F m H \<Longrightarrow> z \<in> N \<Longrightarrow>
     same_on N F (store64 m (z + 24) v) (H\<lparr>v_prev := (v_prev H)(z := v)\<rparr>)"
  by (simp add: same_on_def frame)

lemma same_on_set_foot:
  "geo N F \<Longrightarrow> same_on N F m H \<Longrightarrow> f \<in> F \<Longrightarrow>
     same_on N F (store64 m f v) (H\<lparr>v_foot := (v_foot H)(f := v)\<rparr>)"
  by (simp add: same_on_def frame)

lemma el_add_block_front_view:
  assumes g: "geo N F" and R: "same_on N F (mem s) H" and z: "z \<in> N"
    and b: "beg (get_list r s) \<in> N" and n: "v_next H (beg (get_list r s)) \<in> N"
    and ne: "z \<noteq> beg (get_list r s)"
  shows "\<exists>m'. el_add_block_front r z s =
      Some (put_list r ((get_list r s)\<lparr>length' := length' (get_list r s) + 1,
            bytes := bytes (get_list r s) + (40 + v_size H z)\<rparr>) (s\<lparr>mem := m'\<rparr>)) \<and>
    same_on N F m' (H\<lparr>v_next := (v_next H)(z := v_next H (beg (get_list r s)),
                                       beg (get_list r s) := z),
                      v_prev := (v_prev H)(z := beg (get_list r s),
                                       v_next H (beg (get_list r s)) := z)\<rparr>)"
proof -
  let ?B = "beg (get_list r s)"
  have e: "load64 (mem s) (?B + 16) = v_next H ?B" "load64 (mem s) z = v_size H z"
    using same_onD [OF R] b z by auto
  have n': "load64 (mem s) (?B + 16) \<in> N" using n e by simp
  note res = el_add_block_front_result [OF g z b n' ne, unfolded e]
  have "same_on N F (store64 (store64 (store64 (store64 (mem s) (z + 24) ?B)
          (z + 16) (v_next H ?B)) (?B + 16) z) (v_next H ?B + 24) z)
     (H\<lparr>v_prev := (v_prev H)(z := ?B), v_next := (v_next H)(z := v_next H ?B),
         v_next := ((v_next H)(z := v_next H ?B))(?B := z),
         v_prev := ((v_prev H)(z := ?B))(v_next H ?B := z)\<rparr>)"
    using same_on_set_prev [OF g same_on_set_next [OF g same_on_set_next [OF g
            same_on_set_prev [OF g R z, of ?B] z, of "v_next H ?B"] b, of z] n, of z]
    by simp
  then show ?thesis using res by auto
qed

lemma el_remove_block_view:
  assumes g: "geo N F" and R: "same_on N F (mem s) H" and z: "z \<in> N"
    and p: "v_prev H z \<in> N" and n: "v_next H z \<in> N"
  shows "\<exists>m'. el_remove_block r z s =
      Some (put_list r ((get_list r s)\<lparr>length' := length' (get_list r s) - 1,
            bytes := bytes (get_list r s) - (40 + v_size H z)\<rparr>) (s\<lparr>mem := m'\<rparr>)) \<and>
    same_on N F m' (H\<lparr>v_next := (v_next H)(v_prev H z := v_next H z),
                      v_prev := (v_prev H)(v_next H z := v_prev H z)\<rparr>)"
proof -
  have e: "load64 (mem s) (z + 16) = v_next H z" "load64 (mem s) (z + 24) = v_prev H z"
    "load64 (mem s) z = v_size H z"
    using same_onD [OF R] z by auto
  have p': "load64 (mem s) (z + 24) \<in> N" and n': "load64 (mem s) (z + 16) \<in> N"
    using p n e by simp_all
  note res = el_remove_block_result [OF g z p' n', unfolded e]
  have "same_on N F (store64 (store64 (mem s) (v_prev H z + 16) (v_next H z))
          (v_next H z + 24) (v_prev H z))
     (H\<lparr>v_next := (v_next H)(v_prev H z := v_next H z),
         v_prev := (v_prev H)(v_next H z := v_prev H z)\<rparr>)"
    using same_on_set_prev [OF g same_on_set_next [OF g R p, of "v_next H z"], of "v_next H z" "v_prev H z"] n
    by simp
  then show ?thesis using res by auto
qed

lemma el_split_block_view:
  assumes g: "geo N F" and R: "same_on N F (mem s) H" and x: "x \<in> N" and y: "y \<in> N"
    and f1: "f1 \<in> F" and f2: "f2 \<in> F"
    and ey: "x + (n + 40) = y" and e1: "x + (n + 32) = f1" and e2: "x + (32 + v_size H x) = f2"
    and fit: "\<not> v_size H x < n + 40"
  shows "\<exists>m'. el_split_block x n s = Some (y, s\<lparr>mem := m'\<rparr>) \<and>
    same_on N F m' (H\<lparr>v_size := (v_size H)(x := n, y := v_size H x - n - 40),
                      v_foot := (v_foot H)(f1 := n, f2 := v_size H x - n - 40)\<rparr>)"
proof -
  have e: "load64 (mem s) x = v_size H x" using same_onD [OF R] x by auto
  note [simp] = geo_nodeD(1) [OF g] geo_footD(1) [OF g]
  have ey': "x + (40 + n) = y" using ey by (simp add: ac_simps)
  have res: "el_split_block x n s = Some (y, s\<lparr>mem := store64 (store64 (store64 (store64 (mem s) x n) f1 n) y
      (v_size H x - n - 40)) f2 (v_size H x - n - 40)\<rparr>)"
    using x y f1 f2 fit
    by (simp add: el_split_block_def el_get_footer_def el_prims e ey ey' e1 e2)
  have "same_on N F (store64 (store64 (store64 (store64 (mem s) x n) f1 n) y
      (v_size H x - n - 40)) f2 (v_size H x - n - 40))
     (H\<lparr>v_size := (v_size H)(x := n), v_foot := (v_foot H)(f1 := n), 
        v_size := ((v_size H)(x := n))(y := v_size H x - n - 40),
        v_foot := ((v_foot H)(f1 := n))(f2 := v_size H x - n - 40)\<rparr>)"
    using same_on_set_foot [OF g same_on_set_size [OF g same_on_set_foot [OF g 
       same_on_set_size [OF g R x, of n] f1, of n] y, of "v_size H x - n - 40"] f2, of "v_size H x - n - 40"]
    by simp
  then show ?thesis using res by auto
qed

lemma el_split_block_too_small:
  assumes "x \<noteq> 0" "load64 (mem s) x < n + 40"
  shows "el_split_block x n s = Some (NULL, s)"
  using assms by (simp add: el_split_block_def el_prims)

lemma el_block_above_view:
  assumes g: "geo N F" and R: "same_on N F (mem s) H" and x: "x \<in> N"
  shows "el_block_above s x = Some (if heap_end s \<le> x + (v_size H x + 40) then NULL else x + (v_size H x + 40))"
  using same_onD [OF R] x geo_nodeD(1) [OF g x]
  by (simp add: el_block_above_def el_prims)

lemma el_block_below_view:
  assumes g: "geo N F" and R: "same_on N F (mem s) H" and f: "x - 8 \<in> F"
  shows "el_block_below s x = Some (if x - 8 < heap_start s then NULL else x - 8 - (v_foot H (x - 8) + 32))"
  using same_onD [OF R] f geo_footD(1) [OF g f]
  by (simp add: el_block_below_def el_get_header_def el_prims)

lemma set_state_view:
  assumes g: "geo N F" and R: "same_on N F (mem s) H" and x: "x \<in> N"
  shows "\<exists>m'. set_state x v s = Some (s\<lparr>mem := m'\<rparr>) \<and>
     same_on N F m' (H\<lparr>v_state := (v_state H)(x := v)\<rparr>)"
  using same_on_set_state [OF g R x] geo_nodeD(1) [OF g x]
  by (auto simp add: el_prims)

section \<open>Doubly linked chains\<close>

lemma dll_cong:
  "dll nx pv p xs q \<Longrightarrow> \<forall>y\<in>set (p # xs). nx' y = nx y \<Longrightarrow> \<forall>y\<in>set (xs @ [q]). pv' y = pv y \<Longrightarrow>
     dll nx' pv' p xs q"
  by (induction xs arbitrary: p) auto

lemma dll_append:
  "dll nx pv p (xs @ z # ys) q \<longleftrightarrow> dll nx pv p xs z \<and> dll nx pv z ys q"
  by (induction xs arbitrary: p) auto

lemma dll_next_mem: "dll nx pv p xs q \<Longrightarrow> z \<in> set (p # xs) \<Longrightarrow> nx z \<in> set (xs @ [q])"
  by (induction xs arbitrary: p) auto

lemma dll_prev_mem: "dll nx pv p xs q \<Longrightarrow> z \<in> set (xs @ [q]) \<Longrightarrow> pv z \<in> set (p # xs)"
  by (induction xs arbitrary: p) auto

lemma dll_next_first: "dll nx pv p xs q \<Longrightarrow> nx p = hd (xs @ [q])"
  by (cases xs) auto

lemma dll_remove:
  assumes "dll nx pv p (pre @ z # post) q" "distinct (p # pre @ z # post @ [q])"
  shows "dll (nx(pv z := nx z)) (pv(nx z := pv z)) p (pre @ post) q"
proof -
  from assms(1) have a: "dll nx pv p pre z" and b: "dll nx pv z post q"
    by (simp_all add: dll_append)
  have pz: "pv z = last (p # pre)" using a by (induction pre arbitrary: p) auto
  have nz: "nx z = hd (post @ [q])" using b by (rule dll_next_first)
  have pin: "pv z \<in> set (p # pre)" unfolding pz by (rule last_in_set) simp
  show ?thesis
  proof (cases post)
    case Nil
    then have nzq: "nx z = q" using nz by simp
    show ?thesis
    proof (cases pre rule: rev_cases)
      case Nil
      then show ?thesis using \<open>post = []\<close> pz nzq by simp
    next
      case (snoc pre' w)
      then have pzw: "pv z = w" using pz by simp
      have "dll nx pv p pre' w" using a snoc by (simp add: dll_append)
      then have "dll (nx(w := q)) (pv(q := w)) p pre' w"
        using assms(2) snoc Nil by (elim dll_cong) auto
      then show ?thesis using snoc Nil pzw nzq by (simp add: dll_append)
    qed
  next
    case (Cons w ws)
    then have nzw: "nx z = w" using nz by simp
    have c: "dll nx pv w ws q" using b Cons by simp
    have c': "dll (nx(pv z := w)) (pv(w := pv z)) w ws q"
      using c assms(2) Cons pin by (elim dll_cong) auto
    show ?thesis
    proof (cases pre rule: rev_cases)
      case Nil
      then show ?thesis using Cons pz nzw c' by simp
    next
      case (snoc pre' u)
      then have pzu: "pv z = u" using pz by simp
      have "dll nx pv p pre' u" using a snoc by (simp add: dll_append)
      then have "dll (nx(u := w)) (pv(w := u)) p pre' u"
        using assms(2) snoc Cons by (elim dll_cong) auto
      then show ?thesis using snoc Cons pzu nzw c' by (simp add: dll_append)
    qed
  qed
qed

lemma dll_add_front:
  assumes "dll nx pv p xs q" "z \<notin> set (p # xs @ [q])" "distinct (p # xs @ [q])"
  shows "dll (nx(z := nx p, p := z)) (pv(z := p, nx p := z)) p (z # xs) q"
proof (cases xs)
  case Nil
  then show ?thesis using assms by auto
next
  case (Cons w ws)
  then have "dll nx pv w ws q" "nx p = w" using assms(1) by simp_all
  moreover have "dll (nx(z := w, p := z)) (pv(z := p, w := z)) w ws q"
    using \<open>dll nx pv w ws q\<close> assms Cons
    by (elim dll_cong) auto
  ultimately show ?thesis using Cons assms by simp
qed

section \<open>First fit\<close>

text \<open>
  The loop of \<^verbatim>\<open>el_find_first_avail\<close> over a well-formed list returns the first block that
  passes the test of the source.  For a request whose \<open>n + overhead\<close> does not wrap around
  that is the block the reference scan selects.
\<close>

lemma find_loop_scan:
  "dll (next_of s) (prev_of s) p xs q \<Longrightarrow> NULL \<notin> set xs \<Longrightarrow>
     find_loop s n (hd (xs @ [q])) (length xs) =
       Some (case wrapped_fit (size_of s) xs n of Some b \<Rightarrow> b | None \<Rightarrow> NULL)"
proof (induction xs arbitrary: p)
  case Nil
  then show ?case by (simp add: wrapped_fit_def)
next
  case (Cons x xs)
  then have d: "dll (next_of s) (prev_of s) x xs q" and x: "x \<noteq> NULL" by auto
  have nx: "next_of s x = hd (xs @ [q])" using d by (rule dll_next_first)
  have ih: "find_loop s n (hd (xs @ [q])) (length xs) =
       Some (case wrapped_fit (size_of s) xs n of Some b \<Rightarrow> b | None \<Rightarrow> NULL)"
    using Cons.IH [OF d] Cons.prems by simp
  show ?case using x nx ih
    by (simp add: wrapped_fit_def get_size_def get_next_def size_of_def next_of_def)
qed





section \<open>The invariant is established by initialisation and kept by allocation and release\<close>

lemma chain_le: "chain a bs e \<Longrightarrow> a \<le> e"
  by (induction a bs e rule: chain.induct) auto

lemma chain_bounds:
  "chain a bs e \<Longrightarrow> (b, sz, f) \<in> set bs \<Longrightarrow> a \<le> unat b \<and> unat b + unat sz + 40 \<le> e"
proof (induction a bs e rule: chain.induct)
  case (1 a e)
  then show ?case by simp
next
  case (2 a b' sz' f' bs e)
  have le: "a + unat sz' + 40 \<le> e"
    using "2.prems"(1) chain_le by auto
  show ?case
  proof (cases "(b, sz, f) = (b', sz', f')")
    case True
    then show ?thesis using "2.prems" le by simp
  next
    case False
    then have "(b, sz, f) \<in> set bs" using "2.prems" by auto
    then show ?thesis using "2.IH" "2.prems"(1) by fastforce
  qed
qed

lemma chain_disjoint:
  "chain a bs e \<Longrightarrow> (b, sz, f) \<in> set bs \<Longrightarrow> (b', sz', f') \<in> set bs \<Longrightarrow>
     (b, sz, f) \<noteq> (b', sz', f') \<Longrightarrow>
     unat b + unat sz + 40 \<le> unat b' \<or> unat b' + unat sz' + 40 \<le> unat b"
proof (induction a bs e rule: chain.induct)
  case (1 a e)
  then show ?case by simp
next
  case (2 a c csz cf bs e)
  have ch: "chain (a + unat csz + 40) bs e" and c: "unat c = a" using "2.prems"(1) by auto
  consider "(b, sz, f) \<in> set bs" "(b', sz', f') \<in> set bs"
    | "(b, sz, f) = (c, csz, cf)" "(b', sz', f') \<in> set bs"
    | "(b, sz, f) \<in> set bs" "(b', sz', f') = (c, csz, cf)"
    using "2.prems" by auto
  then show ?case
  proof cases
    case 1
    then show ?thesis using "2.IH" ch "2.prems"(4) by blast
  next
    case 2
    then show ?thesis using chain_bounds [OF ch 2(2)] c by auto
  next
    case 3
    then show ?thesis using chain_bounds [OF ch 3(1)] c by auto
  qed
qed

lemma chain_unique:
  assumes "chain a bs e" "(b, sz, f) \<in> set bs" "(b, sz', f') \<in> set bs"
  shows "sz' = sz \<and> f' = f"
  using chain_disjoint [OF assms] by auto

lemma chain_footer:
  assumes "chain a bs e" "e < 2 ^ 64" "(b, sz, f) \<in> set bs"
  shows "unat (b + (32 + sz)) = unat b + 32 + unat sz"
proof -
  have "unat b + unat sz + 40 \<le> e" using chain_bounds [OF assms(1,3)] by simp
  then have l: "unat b + unat sz + 40 < 2 ^ 64" using assms(2) by simp
  have "unat (32 + sz) = 32 + unat sz"
    using l by (simp add: unat_word_ariths)
  then show ?thesis using l by (simp add: unat_word_ariths)
qed

lemma arena_geo:
  assumes ch: "chain (unat (heap_start s)) bs (unat (heap_end s))"
    and so: "sentinels_ok s" and pos: "0 < unat (heap_start s)"
  shows "geo (block_addrs bs \<union> sentinel_set s) (block_foots bs)"
proof -
  have e: "unat (heap_end s) < 2 ^ 64" using unsigned_less [of "heap_end s", where ?'a = nat] by simp
  note B = chain_bounds [OF ch] and D = chain_disjoint [OF ch] and Fo = chain_footer [OF ch e]
  have S1: "\<And>z. z \<in> sentinel_set s \<Longrightarrow> z \<noteq> 0 \<and> unat z + 32 \<le> 2 ^ 64 \<and>
        (unat z + 32 \<le> unat (heap_start s) \<or> unat (heap_end s) \<le> unat z)"
    and S2: "\<And>z y. z \<in> sentinel_set s \<Longrightarrow> y \<in> sentinel_set s \<Longrightarrow> z \<noteq> y \<Longrightarrow>
        unat z + 32 \<le> unat y \<or> unat y + 32 \<le> unat z"
    using so unfolding sentinels_ok_def by blast+
  let ?N = "block_addrs bs \<union> sentinel_set s" and ?F = "block_foots bs"
  have g1: "\<forall>z\<in>?N. z \<noteq> 0 \<and> unat z + 32 \<le> 2 ^ 64"
  proof
    fix z assume "z \<in> block_addrs bs \<union> sentinel_set s"
    then show "z \<noteq> 0 \<and> unat z + 32 \<le> 2 ^ 64"
      using B S1 e pos by (fastforce simp: block_addrs_def)
  qed
  have g2: "\<forall>f\<in>?F. f \<noteq> 0 \<and> unat f + 8 \<le> 2 ^ 64"
  proof
    fix f assume "f \<in> block_foots bs"
    then obtain b sz fl where m: "(b, sz, fl) \<in> set bs" and f: "f = b + (32 + sz)"
      by (auto simp: block_foots_def)
    have "unat f = unat b + 32 + unat sz" using Fo [OF m] f by simp
    then show "f \<noteq> 0 \<and> unat f + 8 \<le> 2 ^ 64" using B [OF m] e
      by (auto simp: unat_eq_0 [symmetric] simp del: unat_eq_0)
  qed
  have g3: "\<forall>z\<in>?N. \<forall>y\<in>?N. z \<noteq> y \<longrightarrow> unat z + 32 \<le> unat y \<or> unat y + 32 \<le> unat z"
  proof (intro ballI impI)
    fix z y assume z: "z \<in> block_addrs bs \<union> sentinel_set s"
      and y: "y \<in> block_addrs bs \<union> sentinel_set s" and ne: "z \<noteq> y"
    show "unat z + 32 \<le> unat y \<or> unat y + 32 \<le> unat z"
    proof (cases "z \<in> sentinel_set s")
      case True
      show ?thesis
      proof (cases "y \<in> sentinel_set s")
        case True
        then show ?thesis using S2 \<open>z \<in> sentinel_set s\<close> ne by blast
      next
        case False
        then obtain sz fl where "(y, sz, fl) \<in> set bs" using y by (auto simp: block_addrs_def)
        then show ?thesis using B S1 [OF True] by fastforce
      qed
    next
      case False
      then obtain sz fl where mz: "(z, sz, fl) \<in> set bs" using z by (auto simp: block_addrs_def)
      show ?thesis
      proof (cases "y \<in> sentinel_set s")
        case True
        then show ?thesis using B [OF mz] S1 [OF True] by fastforce
      next
        case False
        then obtain sz' fl' where my: "(y, sz', fl') \<in> set bs"
          using y by (auto simp: block_addrs_def)
        show ?thesis using D [OF mz my] ne by auto
      qed
    qed
  qed
  have g4: "\<forall>z\<in>?N. \<forall>f\<in>?F. unat f + 8 \<le> unat z \<or> unat z + 32 \<le> unat f"
  proof (intro ballI)
    fix z f assume z: "z \<in> block_addrs bs \<union> sentinel_set s" and "f \<in> block_foots bs"
    then obtain b sz fl where m: "(b, sz, fl) \<in> set bs" and f: "f = b + (32 + sz)"
      by (auto simp: block_foots_def)
    have uf: "unat f = unat b + 32 + unat sz" using Fo [OF m] f by simp
    show "unat f + 8 \<le> unat z \<or> unat z + 32 \<le> unat f"
    proof (cases "z \<in> sentinel_set s")
      case True
      then show ?thesis using B [OF m] S1 [OF True] uf by fastforce
    next
      case False
      then obtain sz' fl' where mz: "(z, sz', fl') \<in> set bs"
        using z by (auto simp: block_addrs_def)
      show ?thesis
      proof (cases "(z, sz', fl') = (b, sz, fl)")
        case True
        then show ?thesis using uf by simp
      next
        case False
        then show ?thesis using D [OF mz m] uf by auto
      qed
    qed
  qed
  have g5: "\<forall>f\<in>?F. \<forall>f'\<in>?F. f \<noteq> f' \<longrightarrow> unat f + 8 \<le> unat f' \<or> unat f' + 8 \<le> unat f"
  proof (intro ballI impI)
    fix f f' assume "f \<in> block_foots bs" "f' \<in> block_foots bs" and ne: "f \<noteq> f'"
    then obtain b sz fl b' sz' fl' where m: "(b, sz, fl) \<in> set bs" and f: "f = b + (32 + sz)"
      and m': "(b', sz', fl') \<in> set bs" and f': "f' = b' + (32 + sz')"
      by (auto simp: block_foots_def)
    have uf: "unat f = unat b + 32 + unat sz" using Fo [OF m] f by simp
    have uf': "unat f' = unat b' + 32 + unat sz'" using Fo [OF m'] f' by simp
    have "(b, sz, fl) \<noteq> (b', sz', fl')" using ne f f' by auto
    then show "unat f + 8 \<le> unat f' \<or> unat f' + 8 \<le> unat f"
      using D [OF m m'] uf uf' by auto
  qed
  show ?thesis unfolding geo_def using g1 g2 g3 g4 g5 by blast
qed

lemma linked_remove:
  "linked H b (pre @ z # post) e \<Longrightarrow> linked (h_remove z H) b (pre @ post) e"
  using dll_remove [of "v_next H" "v_prev H" b pre z post e]
  by (auto simp: linked_def h_remove_def)

lemma linked_add_front:
  "linked H b xs e \<Longrightarrow> z \<notin> set (b # xs @ [e]) \<Longrightarrow> linked (h_add_front b z H) b (z # xs) e"
  using dll_add_front [of "v_next H" "v_prev H" b xs e z]
  by (auto simp: linked_def h_add_front_def)

lemma linked_cong:
  "linked H b xs e \<Longrightarrow> \<forall>y\<in>set (b # xs). v_next H' y = v_next H y \<Longrightarrow>
     \<forall>y\<in>set (xs @ [e]). v_prev H' y = v_prev H y \<Longrightarrow> linked H' b xs e"
  unfolding linked_def using dll_cong [of "v_next H" "v_prev H" b xs e "v_next H'" "v_prev H'"]
  by blast

lemma linked_mem:
  assumes "linked H b xs e" "z \<in> set xs"
  shows "v_next H z \<in> set (xs @ [e])" "v_prev H z \<in> set (b # xs)"
  using assms dll_next_mem [of "v_next H" "v_prev H" b xs e z]
    dll_prev_mem [of "v_next H" "v_prev H" b xs e z]
  by (auto simp: linked_def)

lemma linked_first: "linked H b xs e \<Longrightarrow> v_next H b = hd (xs @ [e])"
  unfolding linked_def using dll_next_first by blast

text \<open>Unlinking from, or inserting into, another list.\<close>

lemma linked_remove_other:
  assumes l: "linked H b xs e" and l': "linked H b' xs' e'" and z: "z \<in> set xs'"
    and dj: "set (b # xs @ [e]) \<inter> set (b' # xs' @ [e']) = {}"
  shows "linked (h_remove z H) b xs e"
proof -
  have "v_next H z \<in> set (xs' @ [e'])" "v_prev H z \<in> set (b' # xs')"
    using linked_mem [OF l' z] by auto
  then have "v_next H z \<notin> set (b # xs @ [e])" "v_prev H z \<notin> set (b # xs @ [e])"
    using dj by auto
  then show ?thesis using l by (elim linked_cong) (auto simp: h_remove_def)
qed

lemma linked_add_front_other:
  assumes l: "linked H b xs e" and l': "linked H b' xs' e'" and z: "z \<notin> set (b # xs @ [e])"
    and dj: "set (b # xs @ [e]) \<inter> set (b' # xs' @ [e']) = {}"
  shows "linked (h_add_front b' z H) b xs e"
proof -
  have "v_next H b' \<in> set (xs' @ [e'])"
    using linked_first [OF l'] by (cases xs') auto
  then have "v_next H b' \<notin> set (b # xs @ [e])" "b' \<notin> set (b # xs @ [e])"
    using dj by auto
  then show ?thesis using l z by (elim linked_cong) (auto simp: h_add_front_def)
qed

lemma el_remove_block_h:
  assumes g: "geo N F" and R: "same_on N F (mem s) H" and z: "z \<in> N"
    and p: "v_prev H z \<in> N" and n: "v_next H z \<in> N"
  shows "\<exists>m'. el_remove_block r z s =
      Some (put_list r ((get_list r s)\<lparr>length' := length' (get_list r s) - 1,
            bytes := bytes (get_list r s) - (40 + v_size H z)\<rparr>) (s\<lparr>mem := m'\<rparr>)) \<and>
    same_on N F m' (h_remove z H)"
  using el_remove_block_view [OF assms] by (simp add: h_remove_def)

lemma el_add_block_front_h:
  assumes g: "geo N F" and R: "same_on N F (mem s) H" and z: "z \<in> N"
    and b: "beg (get_list r s) \<in> N" and n: "v_next H (beg (get_list r s)) \<in> N"
    and ne: "z \<noteq> beg (get_list r s)"
  shows "\<exists>m'. el_add_block_front r z s =
      Some (put_list r ((get_list r s)\<lparr>length' := length' (get_list r s) + 1,
            bytes := bytes (get_list r s) + (40 + v_size H z)\<rparr>) (s\<lparr>mem := m'\<rparr>)) \<and>
    same_on N F m' (h_add_front (beg (get_list r s)) z H)"
  using el_add_block_front_view [OF assms] by (simp add: h_add_front_def)

lemma h_simps [simp]:
  "v_size (h_remove z H) = v_size H" "v_state (h_remove z H) = v_state H"
  "v_foot (h_remove z H) = v_foot H"
  "v_size (h_add_front b z H) = v_size H" "v_state (h_add_front b z H) = v_state H"
  "v_foot (h_add_front b z H) = v_foot H"
  by (simp_all add: h_remove_def h_add_front_def)

lemma el_malloc_view:
  assumes g: "geo N F" and R: "same_on N F (mem s) H"
    and find: "el_find_first_avail s n = Some x"
    and x: "x \<in> N" and y: "y \<in> N" and f1: "f1 \<in> F" and f2: "f2 \<in> F"
    and ey: "x + (n + 40) = y" and e1: "x + (n + 32) = f1" and e2: "x + (32 + v_size H x) = f2"
    and fit: "\<not> v_size H x < n + 40"
    and px: "v_prev H x \<in> N" and nx: "v_next H x \<in> N"
    and ba: "beg (avail s) \<in> N" and bu: "beg (used s) \<in> N"
    and nbu: "v_next (h_remove x H) (beg (used s)) \<in> N"
    and nba: "v_next (h_add_front (beg (used s)) x (h_remove x H)) (beg (avail s)) \<in> N"
    and xbu: "x \<noteq> beg (used s)" and yba: "y \<noteq> beg (avail s)" and xy: "x \<noteq> y"
  shows "\<exists>m'. el_malloc n s = Some (x + 32,
      s\<lparr>avail := (avail s)\<lparr>length' := length' (avail s) - 1 + 1,
            bytes := bytes (avail s) - (40 + v_size H x) + (40 + (v_size H x - n - 40))\<rparr>,
        used := (used s)\<lparr>length' := length' (used s) + 1, bytes := bytes (used s) + (40 + n)\<rparr>,
        mem := m'\<rparr>) \<and>
    same_on N F m' (h_malloc (beg (avail s)) (beg (used s)) x y f1 f2 n H)"
proof -
  have x0: "x \<noteq> NULL" using geo_nodeD(1) [OF g x] by (simp add: NULL_def)
  obtain m1 where s1: "el_remove_block AVAIL x s =
      Some (put_list AVAIL ((get_list AVAIL s)\<lparr>length' := length' (get_list AVAIL s) - 1,
            bytes := bytes (get_list AVAIL s) - (40 + v_size H x)\<rparr>) (s\<lparr>mem := m1\<rparr>))"
    and R1: "same_on N F m1 (h_remove x H)"
    using el_remove_block_h [OF g R x px nx, of AVAIL] by blast
  define s1 where "s1 = put_list AVAIL ((get_list AVAIL s)\<lparr>length' := length' (get_list AVAIL s) - 1,
            bytes := bytes (get_list AVAIL s) - (40 + v_size H x)\<rparr>) (s\<lparr>mem := m1\<rparr>)"
  define H1 where "H1 = h_remove x H"
  have R1': "same_on N F (mem s1) H1" using R1 by (simp add: s1_def H1_def)
  have e2': "x + (32 + v_size H1 x) = f2" and fit': "\<not> v_size H1 x < n + 40"
    using e2 fit by (simp_all add: H1_def)
  obtain m2 where s2: "el_split_block x n s1 = Some (y, s1\<lparr>mem := m2\<rparr>)"
    and R2: "same_on N F m2 (H1\<lparr>v_size := (v_size H1)(x := n, y := v_size H1 x - n - 40),
                  v_foot := (v_foot H1)(f1 := n, f2 := v_size H1 x - n - 40)\<rparr>)"
    using el_split_block_view [OF g R1' x y f1 f2 ey e1 e2' fit'] by blast
  define s2 where "s2 = s1\<lparr>mem := m2\<rparr>"
  define H2 where "H2 = H1\<lparr>v_size := (v_size H1)(x := n, y := v_size H1 x - n - 40),
                  v_foot := (v_foot H1)(f1 := n, f2 := v_size H1 x - n - 40)\<rparr>"
  have R2': "same_on N F (mem s2) H2" using R2 by (simp add: s2_def H2_def)
  have bu2: "beg (get_list USED s2) \<in> N" "v_next H2 (beg (get_list USED s2)) \<in> N"
    "x \<noteq> beg (get_list USED s2)"
    using bu nbu xbu by (simp_all add: s2_def s1_def H2_def H1_def)
  obtain m3 where s3: "el_add_block_front USED x s2 =
      Some (put_list USED ((get_list USED s2)\<lparr>length' := length' (get_list USED s2) + 1,
            bytes := bytes (get_list USED s2) + (40 + v_size H2 x)\<rparr>) (s2\<lparr>mem := m3\<rparr>))"
    and R3: "same_on N F m3 (h_add_front (beg (get_list USED s2)) x H2)"
    using el_add_block_front_h [OF g R2' x bu2] by blast
  define s3 where "s3 = put_list USED ((get_list USED s2)\<lparr>length' := length' (get_list USED s2) + 1,
            bytes := bytes (get_list USED s2) + (40 + v_size H2 x)\<rparr>) (s2\<lparr>mem := m3\<rparr>)"
  define H3 where "H3 = h_add_front (beg (used s)) x H2"
  have R3': "same_on N F (mem s3) H3" using R3 by (simp add: s3_def H3_def s2_def s1_def)
  obtain m4 where s4: "set_state x EL_USED s3 = Some (s3\<lparr>mem := m4\<rparr>)"
    and R4: "same_on N F m4 (H3\<lparr>v_state := (v_state H3)(x := EL_USED)\<rparr>)"
    using set_state_view [OF g R3' x] by blast
  define s4 where "s4 = s3\<lparr>mem := m4\<rparr>"
  define H4 where "H4 = H3\<lparr>v_state := (v_state H3)(x := EL_USED)\<rparr>"
  have R4': "same_on N F (mem s4) H4" using R4 by (simp add: s4_def H4_def)
  have ba4: "beg (get_list AVAIL s4) \<in> N" "v_next H4 (beg (get_list AVAIL s4)) \<in> N"
    "y \<noteq> beg (get_list AVAIL s4)"
    using ba nba yba
    by (simp_all add: s4_def s3_def s2_def s1_def H4_def H3_def H2_def H1_def h_add_front_def)
  obtain m5 where s5: "el_add_block_front AVAIL y s4 =
      Some (put_list AVAIL ((get_list AVAIL s4)\<lparr>length' := length' (get_list AVAIL s4) + 1,
            bytes := bytes (get_list AVAIL s4) + (40 + v_size H4 y)\<rparr>) (s4\<lparr>mem := m5\<rparr>))"
    and R5: "same_on N F m5 (h_add_front (beg (get_list AVAIL s4)) y H4)"
    using el_add_block_front_h [OF g R4' y ba4] by blast
  define s5 where "s5 = put_list AVAIL ((get_list AVAIL s4)\<lparr>length' := length' (get_list AVAIL s4) + 1,
            bytes := bytes (get_list AVAIL s4) + (40 + v_size H4 y)\<rparr>) (s4\<lparr>mem := m5\<rparr>)"
  define H5 where "H5 = h_add_front (beg (avail s)) y H4"
  have R5': "same_on N F (mem s5) H5"
    using R5 by (simp add: s5_def H5_def s4_def s3_def s2_def s1_def)
  obtain m6 where s6: "set_state y EL_AVAILABLE s5 = Some (s5\<lparr>mem := m6\<rparr>)"
    and R6: "same_on N F m6 (H5\<lparr>v_state := (v_state H5)(y := EL_AVAILABLE)\<rparr>)"
    using set_state_view [OF g R5' y] by blast
  have HH: "H5\<lparr>v_state := (v_state H5)(y := EL_AVAILABLE)\<rparr> =
      h_malloc (beg (avail s)) (beg (used s)) x y f1 f2 n H"
    by (simp add: h_malloc_def Let_def H5_def H4_def H3_def H2_def H1_def)
  have sz: "v_size H2 x = n" "v_size H4 y = v_size H x - n - 40"
    using xy by (simp_all add: H4_def H3_def H2_def H1_def)
  have c1: "el_remove_block AVAIL x s = Some s1" unfolding s1_def by (rule s1)
  have c2: "el_split_block x n s1 = Some (y, s2)" unfolding s2_def by (rule s2)
  have c3: "el_add_block_front USED x s2 = Some s3" unfolding s3_def by (rule s3)
  have c4: "set_state x EL_USED s3 = Some s4" unfolding s4_def by (rule s4)
  have c5: "el_add_block_front AVAIL y s4 = Some s5" unfolding s5_def by (rule s5)
  have "el_malloc n s = Some (x + 32, s5\<lparr>mem := m6\<rparr>)"
    using x0 by (simp add: el_malloc_def find c1 c2 c3 c4 c5 s6 sizeof_blockhead_def)
  moreover have "s5\<lparr>mem := m6\<rparr> =
      s\<lparr>avail := (avail s)\<lparr>length' := length' (avail s) - 1 + 1,
            bytes := bytes (avail s) - (40 + v_size H x) + (40 + (v_size H x - n - 40))\<rparr>,
        used := (used s)\<lparr>length' := length' (used s) + 1, bytes := bytes (used s) + (40 + n)\<rparr>,
        mem := m6\<rparr>"
    by (simp add: s5_def s4_def s3_def s2_def s1_def sz)
  ultimately show ?thesis using R6 HH by auto
qed

lemma linked_fields [simp]:
  "linked (H\<lparr>v_size := a\<rparr>) = linked H" "linked (H\<lparr>v_state := b\<rparr>) = linked H"
  "linked (H\<lparr>v_foot := c\<rparr>) = linked H"
  by (simp_all add: linked_def fun_eq_iff)

lemma tagged_links [simp]:
  "tagged (h_remove z H) = tagged H" "tagged (h_add_front b z H) = tagged H"
  by (simp_all add: tagged_def fun_eq_iff)

lemma heap_ok_transfer:
  assumes R: "same_on N F m H" and h: "heap_ok H s bs av us"
    and sub: "block_addrs bs \<subseteq> N" "sentinel_set s \<subseteq> N" "block_foots bs \<subseteq> F"
      "set av \<subseteq> N" "set us \<subseteq> N"
  shows "heap_ok (view_of m) s bs av us"
proof -
  note D = same_onD [OF R]
  have t: "tagged (view_of m) bs"
    unfolding tagged_def
  proof (intro allI impI)
    fix b sz f assume m: "(b, sz, f) \<in> set bs"
    have bn: "b \<in> N" using sub(1) m by (force simp: block_addrs_def)
    have fn: "b + (32 + sz) \<in> F" using sub(3) m by (force simp: block_foots_def)
    have "v_size H b = sz \<and> v_foot H (b + (32 + sz)) = sz \<and>
      v_state H b = tag f"
      using h m by (auto simp: heap_ok_def tagged_def)
    then show "v_size (view_of m) b = sz \<and> v_foot (view_of m) (b + (32 + sz)) = sz \<and>
      v_state (view_of m) b = tag f"
      using D(1) [OF bn] D(2) [OF bn] D(5) [OF fn] by (simp add: view_of_def)
  qed
  have sN: "beg (avail s) \<in> N" "end' (avail s) \<in> N" "beg (used s) \<in> N" "end' (used s) \<in> N"
    using sub(2) by (auto simp: sentinel_set_def)
  have vn: "\<And>y. y \<in> N \<Longrightarrow> v_next (view_of m) y = v_next H y"
    and vp: "\<And>y. y \<in> N \<Longrightarrow> v_prev (view_of m) y = v_prev H y"
    using D(3,4) by (simp_all add: view_of_def)
  have a: "linked (view_of m) (beg (avail s)) av (end' (avail s))"
  proof (rule linked_cong)
    show "linked H (beg (avail s)) av (end' (avail s))" using h by (simp add: heap_ok_def)
    show "\<forall>y\<in>set (beg (avail s) # av). v_next (view_of m) y = v_next H y"
      using vn sN sub(4) by auto
    show "\<forall>y\<in>set (av @ [end' (avail s)]). v_prev (view_of m) y = v_prev H y"
      using vp sN sub(4) by auto
  qed
  have u: "linked (view_of m) (beg (used s)) us (end' (used s))"
  proof (rule linked_cong)
    show "linked H (beg (used s)) us (end' (used s))" using h by (simp add: heap_ok_def)
    show "\<forall>y\<in>set (beg (used s) # us). v_next (view_of m) y = v_next H y"
      using vn sN sub(5) by auto
    show "\<forall>y\<in>set (us @ [end' (used s)]). v_prev (view_of m) y = v_prev H y"
      using vp sN sub(5) by auto
  qed
  show ?thesis using t a u by (simp add: heap_ok_def)
qed

lemma chain_append:
  "chain a (xs @ ys) e \<longleftrightarrow> (\<exists>c. chain a xs c \<and> chain c ys e)"
  by (induction a xs e rule: chain.induct) auto

lemma chain_addrs_distinct:
  "chain a bs e \<Longrightarrow> distinct (map fst bs)"
proof (induction a bs e rule: chain.induct)
  case (1 a e)
  then show ?case by simp
next
  case (2 a b sz f bs e)
  have ch: "chain (a + unat sz + 40) bs e" and b: "unat b = a" using "2.prems" by auto
  have "b \<notin> fst ` set bs"
  proof
    assume "b \<in> fst ` set bs"
    then obtain sz' f' where "(b, sz', f') \<in> set bs" by auto
    then show False using chain_bounds [OF ch] b by fastforce
  qed
  then show ?case using "2.IH" ch by simp
qed

lemma chain_foots_distinct:
  assumes "chain a bs e" "e < 2 ^ 64"
  shows "distinct (map (\<lambda>(b, sz, f). b + (32 + sz)) bs)"
  using assms
proof (induction a bs e rule: chain.induct)
  case (1 a e)
  then show ?case by simp
next
  case (2 a b sz f bs e)
  have ch: "chain (a + unat sz + 40) bs e" and b: "unat b = a" using "2.prems" by auto
  have u: "unat (b + (32 + sz)) = unat b + 32 + unat sz"
    using chain_footer [OF "2.prems"(1) "2.prems"(2), of b sz f] by simp
  have "b + (32 + sz) \<notin> (\<lambda>(b, sz, f). b + (32 + sz)) ` set bs"
  proof
    assume "b + (32 + sz) \<in> (\<lambda>(b, sz, f). b + (32 + sz)) ` set bs"
    then obtain b' sz' f' where m: "(b', sz', f') \<in> set bs" and eq: "b + (32 + sz) = b' + (32 + sz')"
      by auto
    have "unat (b' + (32 + sz')) = unat b' + 32 + unat sz'"
      using chain_footer [OF ch "2.prems"(2) m] .
    then show False using chain_bounds [OF ch m] b u eq by simp
  qed
  then show ?case using "2.IH" ch "2.prems"(2) by simp
qed

lemma chain_split:
  assumes ch: "chain a (pre @ (x, S, f) # post) e" and e: "e < 2 ^ 64"
    and fit: "unat n + 40 \<le> unat S"
  shows "chain a (pre @ (x, n, g) # (x + (n + 40), S - n - 40, h) # post) e"
    and "unat (x + (n + 40)) = unat x + unat n + 40"
    and "unat (S - n - 40) = unat S - unat n - 40"
proof -
  obtain c where c1: "chain a pre c" and c2: "chain c ((x, S, f) # post) e"
    using ch by (auto simp: chain_append)
  have ux: "unat x = c" and c3: "chain (c + unat S + 40) post e" using c2 by auto
  have le: "c + unat S + 40 \<le> e" using chain_le [OF c3] .
  have n40: "unat (n + 40) = unat n + 40"
    using fit unsigned_less [of S, where ?'a = nat] by (simp add: unat_word_ariths)
  show uy: "unat (x + (n + 40)) = unat x + unat n + 40"
    using le e fit ux n40 by (simp add: unat_word_ariths)
  have "n + 40 \<le> S" using fit n40 by (simp add: word_le_nat_alt)
  then have "unat (S - (n + 40)) = unat S - unat (n + 40)" by (simp add: unat_sub)
  then show ur: "unat (S - n - 40) = unat S - unat n - 40" using n40 by (simp add: diff_diff_eq)
  have "chain c ((x, n, g) # (x + (n + 40), S - n - 40, h) # post) e"
    using ux uy ur c3 fit by (simp add: add.assoc)
  then show "chain a (pre @ (x, n, g) # (x + (n + 40), S - n - 40, h) # post) e"
    using c1 by (auto simp: chain_append)
qed

lemma h_malloc_linked:
  assumes la: "linked H ba av ea" and lu: "linked H bu us eu"
    and dj: "set (ba # av @ [ea]) \<inter> set (bu # us @ [eu]) = {}"
    and x: "x \<in> set av"
    and y: "y \<notin> set (ba # av @ [ea])" "y \<notin> set (bu # us @ [eu])"
  shows "linked (h_malloc ba bu x y f1 f2 n H) ba (y # remove1 x av) ea"
    and "linked (h_malloc ba bu x y f1 f2 n H) bu (x # us) eu"
proof -
  obtain a1 a2 where av: "av = a1 @ x # a2" using x by (auto dest: split_list)
  have dav: "distinct av" using la by (simp add: linked_def)
  have r: "remove1 x av = a1 @ a2" using dav av by (simp add: remove1_append)
  define H1 where "H1 = h_remove x H"
  define H2 where "H2 = H1\<lparr>v_size := (v_size H1)(x := n, y := v_size H1 x - n - 40),
                  v_foot := (v_foot H1)(f1 := n, f2 := v_size H1 x - n - 40)\<rparr>"
  define H3 where "H3 = h_add_front bu x H2"
  define H4 where "H4 = H3\<lparr>v_state := (v_state H3)(x := EL_USED)\<rparr>"
  define H5 where "H5 = h_add_front ba y H4"
  have HH: "h_malloc ba bu x y f1 f2 n H = H5\<lparr>v_state := (v_state H5)(y := EL_AVAILABLE)\<rparr>"
    by (simp add: h_malloc_def Let_def H5_def H4_def H3_def H2_def H1_def)
  have a1: "linked H1 ba (a1 @ a2) ea" unfolding H1_def using la av by (auto intro: linked_remove)
  have dj': "set (bu # us @ [eu]) \<inter> set (ba # av @ [ea]) = {}" using dj by auto
  have u1: "linked H1 bu us eu" unfolding H1_def using lu la x dj' by (rule linked_remove_other)
  have a2: "linked H2 ba (a1 @ a2) ea" and u2: "linked H2 bu us eu"
    using a1 u1 by (simp_all add: H2_def)
  have dj2: "set (ba # (a1 @ a2) @ [ea]) \<inter> set (bu # us @ [eu]) = {}"
    "set (bu # us @ [eu]) \<inter> set (ba # (a1 @ a2) @ [ea]) = {}" using dj av by auto
  have xa: "x \<notin> set (ba # (a1 @ a2) @ [ea])" using la av by (auto simp: linked_def)
  have xu: "x \<notin> set (bu # us @ [eu])" using dj x by auto
  have a3: "linked H3 ba (a1 @ a2) ea" unfolding H3_def
    using a2 u2 xa dj2(1) by (rule linked_add_front_other)
  have u3: "linked H3 bu (x # us) eu" unfolding H3_def using u2 xu by (rule linked_add_front)
  have a4: "linked H4 ba (a1 @ a2) ea" and u4: "linked H4 bu (x # us) eu"
    using a3 u3 by (simp_all add: H4_def)
  have ya: "y \<notin> set (ba # (a1 @ a2) @ [ea])" using y(1) av by auto
  have yu: "y \<notin> set (bu # (x # us) @ [eu])" using y x by auto
  have dj4: "set (bu # (x # us) @ [eu]) \<inter> set (ba # (a1 @ a2) @ [ea]) = {}"
    using dj2 xa by auto
  have a5: "linked H5 ba (y # a1 @ a2) ea" unfolding H5_def using a4 ya by (rule linked_add_front)
  have u5: "linked H5 bu (x # us) eu" unfolding H5_def
    using u4 a4 yu dj4 by (rule linked_add_front_other)
  show "linked (h_malloc ba bu x y f1 f2 n H) ba (y # remove1 x av) ea"
    using a5 by (simp add: HH r)
  show "linked (h_malloc ba bu x y f1 f2 n H) bu (x # us) eu"
    using u5 by (simp add: HH)
qed

lemma h_malloc_fields:
  "v_size (h_malloc ba bu x y f1 f2 n H) = (v_size H)(x := n, y := v_size H x - n - 40)"
  "v_foot (h_malloc ba bu x y f1 f2 n H) = (v_foot H)(f1 := n, f2 := v_size H x - n - 40)"
  "v_state (h_malloc ba bu x y f1 f2 n H) = (v_state H)(x := EL_USED, y := EL_AVAILABLE)"
  by (simp_all add: h_malloc_def Let_def)

lemma tagged_append: "tagged H (xs @ ys) \<longleftrightarrow> tagged H xs \<and> tagged H ys"
  by (auto simp: tagged_def)

lemma tagged_frame:
  assumes "tagged H bs"
    and "\<And>b sz f. (b, sz, f) \<in> set bs \<Longrightarrow> v_size H' b = v_size H b \<and>
      v_state H' b = v_state H b \<and> v_foot H' (b + (32 + sz)) = v_foot H (b + (32 + sz))"
  shows "tagged H' bs"
  using assms unfolding tagged_def by fastforce

lemma h_malloc_tagged:
  assumes t: "tagged H (pre @ (x, S, True) # post)"
    and dA: "distinct (map fst (pre @ (x, n, False) # (y, S - n - 40, True) # post))"
    and dF: "distinct (map (\<lambda>(b, sz, f). b + (32 + sz))
               (pre @ (x, n, False) # (y, S - n - 40, True) # post))"
    and f1: "f1 = x + (32 + n)" and f2: "f2 = y + (32 + (S - n - 40))"
  shows "tagged (h_malloc ba bu x y f1 f2 n H) (pre @ (x, n, False) # (y, S - n - 40, True) # post)"
proof -
  let ?H = "h_malloc ba bu x y f1 f2 n H"
  have S: "v_size H x = S" using t by (simp add: tagged_def)
  have xy: "x \<noteq> y" and ff: "f1 \<noteq> f2" using dA dF f1 f2 by auto
  have fr: "tagged ?H bs" if sub: "set bs \<subseteq> set pre \<union> set post" and tg: "tagged H bs" for bs
  proof (rule tagged_frame [OF tg])
    fix b sz f assume "(b, sz, f) \<in> set bs"
    then have m: "(b, sz, f) \<in> set pre \<union> set post" using sub by auto
    then have "b \<noteq> x" "b \<noteq> y" using dA by (auto simp: image_iff)
    moreover have "b + (32 + sz) \<noteq> f1" "b + (32 + sz) \<noteq> f2"
      using m dF f1 f2 by (auto simp: image_iff)
    ultimately show "v_size ?H b = v_size H b \<and> v_state ?H b = v_state H b \<and>
      v_foot ?H (b + (32 + sz)) = v_foot H (b + (32 + sz))"
      by (simp add: h_malloc_fields)
  qed
  have "tagged ?H pre" "tagged ?H post"
    using fr [of pre] fr [of post] t by (simp_all add: tagged_append tagged_def)
  moreover have "tagged ?H [(x, n, False), (y, S - n - 40, True)]"
    using xy ff S f1 f2 by (simp add: tagged_def h_malloc_fields tag_def)
  ultimately show ?thesis
    using tagged_append [of ?H pre "(x, n, False) # (y, S - n - 40, True) # post"]
      tagged_append [of ?H "[(x, n, False), (y, S - n - 40, True)]" post]
    by simp
qed

lemma arena_sentinel_fresh:
  assumes "arena_ok s bs" "z \<in> sentinel_set s"
  shows "z \<notin> block_addrs bs"
proof
  assume "z \<in> block_addrs bs"
  then obtain sz f where m: "(z, sz, f) \<in> set bs" by (auto simp: block_addrs_def)
  have ch: "chain (unat (heap_start s)) bs (unat (heap_end s))" and so: "sentinels_ok s"
    using assms(1) by (simp_all add: arena_ok_def)
  have "unat z + 32 \<le> unat (heap_start s) \<or> unat (heap_end s) \<le> unat z"
    using so assms(2) by (auto simp: sentinels_ok_def)
  then show False using chain_bounds [OF ch m] by auto
qed

lemma flagged_disjoint:
  assumes "chain a bs e"
  shows "flagged True bs \<inter> flagged False bs = {}"
  using chain_unique [OF assms] by (fastforce simp: flagged_def)

lemma flagged_sub: "flagged f bs \<subseteq> block_addrs bs"
  by (force simp: flagged_def block_addrs_def)

lemma wf0D:
  assumes "wf0 s bs av us"
  shows "arena_ok s bs"
    and "geo (block_addrs bs \<union> sentinel_set s) (block_foots bs)"
    and "set av \<subseteq> block_addrs bs" and "set us \<subseteq> block_addrs bs"
    and "sentinel_set s \<inter> block_addrs bs = {}"
    and "set (beg (avail s) # av @ [end' (avail s)]) \<inter> set (beg (used s) # us @ [end' (used s)]) = {}"
    and "heap_ok (view_of (mem s)) s bs av us" and "counts_ok s bs av us"
proof -
  show a: "arena_ok s bs" and h: "heap_ok (view_of (mem s)) s bs av us" and c: "counts_ok s bs av us"
    using assms by (simp_all add: wf0_def)
  have ch: "chain (unat (heap_start s)) bs (unat (heap_end s))" and so: "sentinels_ok s"
    and pos: "0 < unat (heap_start s)"
    using a by (simp_all add: arena_ok_def)
  show "geo (block_addrs bs \<union> sentinel_set s) (block_foots bs)"
    using arena_geo [OF ch so pos] .
  show sa: "set av \<subseteq> block_addrs bs" and su: "set us \<subseteq> block_addrs bs"
    using c flagged_sub by (auto simp: counts_ok_def)
  show sf: "sentinel_set s \<inter> block_addrs bs = {}"
    using arena_sentinel_fresh [OF a] by auto
  have "set av \<inter> set us = {}" using c flagged_disjoint [OF ch] by (simp add: counts_ok_def)
  moreover have "distinct [beg (avail s), end' (avail s), beg (used s), end' (used s)]"
    using so by (simp add: sentinels_ok_def)
  ultimately show "set (beg (avail s) # av @ [end' (avail s)]) \<inter>
      set (beg (used s) # us @ [end' (used s)]) = {}"
    using sa su sf by (auto simp: sentinel_set_def)
qed

lemma lbytes_append [simp]: "lbytes f (xs @ ys) = lbytes f xs + lbytes f ys"
  by (simp add: lbytes_def)

lemma lbytes_Cons [simp]:
  "lbytes f ((b, sz, g) # bs) = (if g = f then 40 + sz + lbytes f bs else lbytes f bs)"
  by (simp add: lbytes_def)

lemma lbytes_Nil [simp]: "lbytes f [] = 0"
  by (simp add: lbytes_def)

lemma flagged_append [simp]: "flagged f (xs @ ys) = flagged f xs \<union> flagged f ys"
  by (auto simp: flagged_def)

lemma flagged_Cons [simp]:
  "flagged f ((b, sz, g) # bs) = (if g = f then insert b (flagged f bs) else flagged f bs)"
  by (auto simp: flagged_def)

lemma flagged_Nil [simp]: "flagged f [] = {}"
  by (simp add: flagged_def)

lemma block_addrs_simps [simp]:
  "block_addrs (xs @ ys) = block_addrs xs \<union> block_addrs ys"
  "block_addrs ((b, sz, g) # bs) = insert b (block_addrs bs)" "block_addrs [] = {}"
  by (auto simp: block_addrs_def)

lemma block_foots_simps [simp]:
  "block_foots (xs @ ys) = block_foots xs \<union> block_foots ys"
  "block_foots ((b, sz, g) # bs) = insert (b + (32 + sz)) (block_foots bs)" "block_foots [] = {}"
  by (simp_all add: block_foots_def image_Un)

lemma same_ctl_arena: "same_ctl s s' \<Longrightarrow> arena_ok s' bs = arena_ok s bs"
  by (simp add: same_ctl_def arena_ok_def sentinels_ok_def sentinel_set_def)

lemma same_ctl_heap: "same_ctl s s' \<Longrightarrow> heap_ok H s' bs av us = heap_ok H s bs av us"
  by (simp add: same_ctl_def heap_ok_def)

lemma same_ctl_sentinels: "same_ctl s s' \<Longrightarrow> sentinel_set s' = sentinel_set s"
  by (simp add: same_ctl_def sentinel_set_def)

lemma wf0_malloc:
  assumes wf: "wf0 s (pre @ (x, S, True) # post) av us"
    and fit: "unat n + 40 \<le> unat S"
    and find: "el_find_first_avail s n = Some x"
  shows "\<exists>s'. el_malloc n s = Some (x + 32, s') \<and> same_ctl s s' \<and>
     wf0 s' (pre @ (x, n, False) # (x + (n + 40), S - n - 40, True) # post)
        ((x + (n + 40)) # remove1 x av) (x # us)"
proof -
  define bs where "bs = pre @ (x, S, True) # post"
  define y where "y = x + (n + 40)"
  define bs' where "bs' = pre @ (x, n, False) # (y, S - n - 40, True) # post"
  define f1 where "f1 = x + (32 + n)"
  define f2 where "f2 = x + (32 + S)"
  define H where "H = view_of (mem s)"
  define N where "N = block_addrs bs' \<union> sentinel_set s"
  define F where "F = block_foots bs'"
  let ?ba = "beg (avail s)" and ?ea = "end' (avail s)" and ?bu = "beg (used s)" and ?eu = "end' (used s)"
  note D = wf0D [OF wf [folded bs_def]]
  have ch: "chain (unat (heap_start s)) bs (unat (heap_end s))" and so: "sentinels_ok s"
    and pos: "0 < unat (heap_start s)"
    using D(1) by (simp_all add: arena_ok_def)
  have e: "unat (heap_end s) < 2 ^ 64"
    using unsigned_less [of "heap_end s", where ?'a = nat] by simp
  have sp: "chain (unat (heap_start s)) bs' (unat (heap_end s))"
    unfolding bs'_def y_def using ch e fit unfolding bs_def by (rule chain_split(1))
  have a': "arena_ok s bs'" using D(1) sp by (simp add: arena_ok_def)
  have g: "geo N F" unfolding N_def F_def using arena_geo [OF sp so pos] .
  have R: "same_on N F (mem s) H" unfolding H_def by (rule same_on_view_of)
  have h: "heap_ok H s bs av us" using D(7) by (simp add: H_def)
  have la: "linked H ?ba av ?ea" and lu: "linked H ?bu us ?eu" and tg: "tagged H bs"
    using h by (simp_all add: heap_ok_def)
  have S: "v_size H x = S" using tg by (simp add: tagged_def bs_def)
  have xav: "x \<in> set av" using D(8) by (simp add: counts_ok_def bs_def)
  have subN: "block_addrs bs \<subseteq> N" "sentinel_set s \<subseteq> N"
    by (auto simp: N_def bs_def bs'_def)
  have sN: "?ba \<in> N" "?ea \<in> N" "?bu \<in> N" "?eu \<in> N"
    using subN(2) by (auto simp: sentinel_set_def)
  have avN: "set av \<subseteq> N" and usN: "set us \<subseteq> N" using D(3,4) subN(1) by auto
  have xN: "x \<in> N" and yN: "y \<in> N" by (simp_all add: N_def bs'_def)
  have f2y: "f2 = y + (32 + (S - n - 40))" by (simp add: f2_def y_def)
  have f1F: "f1 \<in> F" and f2F: "f2 \<in> F" by (simp_all add: F_def bs'_def f1_def f2y)
  have dA: "distinct (map fst bs')" using chain_addrs_distinct [OF sp] .
  have dF: "distinct (map (\<lambda>(b, sz, f). b + (32 + sz)) bs')"
    using chain_foots_distinct [OF sp e] .
  have xy: "x \<noteq> y" using dA by (simp add: bs'_def)
  have yfresh: "y \<notin> block_addrs bs" using dA by (auto simp: bs'_def bs_def block_addrs_def)
  have ysent: "y \<notin> sentinel_set s" using arena_sentinel_fresh [OF a'] by (auto simp: bs'_def)
  have xsent: "x \<notin> sentinel_set s" using arena_sentinel_fresh [OF a'] by (auto simp: bs'_def)
  have ya: "y \<notin> set (?ba # av @ [?ea])" and yu: "y \<notin> set (?bu # us @ [?eu])"
    using yfresh ysent D(3,4) by (auto simp: sentinel_set_def)
  have n40: "unat (n + 40) = unat n + 40"
    using fit unsigned_less [of S, where ?'a = nat] by (simp add: unat_word_ariths)
  have fitw: "\<not> v_size H x < n + 40" using fit n40 by (simp add: S word_less_nat_alt)
  have px: "v_prev H x \<in> N" and nx: "v_next H x \<in> N"
    using linked_mem [OF la xav] avN sN by auto
  have nbu0: "v_next H ?bu \<in> N" and nba0: "v_next H ?ba \<in> N"
    using linked_first [OF lu] linked_first [OF la] avN usN sN
    by (cases us; cases av; auto)+
  have nbu: "v_next (h_remove x H) ?bu \<in> N" using nbu0 nx by (simp add: h_remove_def)
  have xbu: "x \<noteq> ?bu" and xba: "x \<noteq> ?ba" and yba: "y \<noteq> ?ba"
    using xsent ysent by (auto simp: sentinel_set_def)
  have babu: "?ba \<noteq> ?bu" using so by (simp add: sentinels_ok_def)
  have nba: "v_next (h_add_front ?bu x (h_remove x H)) ?ba \<in> N"
    using nba0 nx xba babu by (simp add: h_add_front_def h_remove_def)
  have e1: "x + (n + 32) = f1" by (simp add: f1_def add.commute)
  have e2: "x + (32 + v_size H x) = f2" by (simp add: f2_def S)
  obtain m' where res: "el_malloc n s = Some (x + 32,
      s\<lparr>avail := (avail s)\<lparr>length' := length' (avail s) - 1 + 1,
            bytes := bytes (avail s) - (40 + v_size H x) + (40 + (v_size H x - n - 40))\<rparr>,
        used := (used s)\<lparr>length' := length' (used s) + 1, bytes := bytes (used s) + (40 + n)\<rparr>,
        mem := m'\<rparr>)"
    and R': "same_on N F m' (h_malloc ?ba ?bu x y f1 f2 n H)"
    using el_malloc_view [OF g R find xN yN f1F f2F y_def [symmetric] e1 e2 fitw px nx
        sN(1) sN(3) nbu nba xbu yba xy] by blast
  define s' where "s' = s\<lparr>avail := (avail s)\<lparr>length' := length' (avail s) - 1 + 1,
            bytes := bytes (avail s) - (40 + v_size H x) + (40 + (v_size H x - n - 40))\<rparr>,
        used := (used s)\<lparr>length' := length' (used s) + 1, bytes := bytes (used s) + (40 + n)\<rparr>,
        mem := m'\<rparr>"
  have sc: "same_ctl s s'" by (simp add: same_ctl_def s'_def)
  have ms': "mem s' = m'" by (simp add: s'_def)
  let ?H = "h_malloc ?ba ?bu x y f1 f2 n H"
  have t': "tagged ?H bs'"
    unfolding bs'_def
    using h_malloc_tagged [OF tg [unfolded bs_def] dA [unfolded bs'_def] dF [unfolded bs'_def]
        f1_def f2y] .
  have l': "linked ?H ?ba (y # remove1 x av) ?ea" "linked ?H ?bu (x # us) ?eu"
    using h_malloc_linked [OF la lu D(6) xav ya yu] .
  have hk: "heap_ok ?H s bs' (y # remove1 x av) (x # us)"
    using t' l' by (simp add: heap_ok_def)
  have "heap_ok (view_of m') s bs' (y # remove1 x av) (x # us)"
  proof (rule heap_ok_transfer [OF R' hk])
    show "block_addrs bs' \<subseteq> N" "sentinel_set s \<subseteq> N" "block_foots bs' \<subseteq> F"
      by (simp_all add: N_def F_def)
    show "set (y # remove1 x av) \<subseteq> N" using yN avN set_remove1_subset [of x av] by auto
    show "set (x # us) \<subseteq> N" using xN usN by auto
  qed
  then have h': "heap_ok (view_of (mem s')) s' bs' (y # remove1 x av) (x # us)"
    using same_ctl_heap [OF sc] ms' by simp
  have c: "counts_ok s bs av us" using D(8) .
  have dav: "distinct av" using la by (simp add: linked_def)
  have xpp: "x \<notin> flagged True pre" "x \<notin> flagged True post"
    using dA flagged_sub [of True pre] flagged_sub [of True post]
    by (auto simp: bs'_def block_addrs_def)
  have lenav: "0 < length av" using xav by (cases av) auto
  have c': "counts_ok s' bs' (y # remove1 x av) (x # us)"
    using c dav xav xpp lenav
    by (auto simp: counts_ok_def s'_def bs_def bs'_def S length_remove1 of_nat_diff)
  have "wf0 s' bs' (y # remove1 x av) (x # us)"
    using a' same_ctl_arena [OF sc] h' c' by (simp add: wf0_def)
  then show ?thesis using res sc unfolding s'_def [symmetric] bs'_def y_def by blast
qed

lemma same_on_set_size_foot:
  assumes g: "geo N F" and R: "same_on N F (mem s) H" and z: "z \<in> N" and f: "f \<in> F"
  shows "\<exists>m'. (set_size z v s \<bind> set_foot_size f w) = Some (s\<lparr>mem := m'\<rparr>) \<and>
     same_on N F m' (H\<lparr>v_size := (v_size H)(z := v), v_foot := (v_foot H)(f := w)\<rparr>)"
proof -
  have "same_on N F (store64 (store64 (mem s) z v) f w)
     (H\<lparr>v_size := (v_size H)(z := v), v_foot := (v_foot H)(f := w)\<rparr>)"
    using same_on_set_foot [OF g same_on_set_size [OF g R z, of v] f, of w] by simp
  then show ?thesis using geo_nodeD(1) [OF g z] geo_footD(1) [OF g f]
    by (auto simp: el_prims)
qed

lemma el_merge_view:
  assumes g: "geo N F" and R: "same_on N F (mem s) H"
    and lo: "lo \<in> N" and ab: "ab \<in> N" and fa: "fa \<in> F"
    and eab: "lo + (v_size H lo + 40) = ab" and nend: "\<not> heap_end s \<le> ab"
    and stl: "v_state H lo = EL_AVAILABLE" and sta: "v_state H ab = EL_AVAILABLE"
    and efa: "ab + (32 + v_size H ab) = fa"
    and pa: "v_prev H ab \<in> N" and na: "v_next H ab \<in> N"
    and pl: "v_prev (h_remove ab H) lo \<in> N" and nl: "v_next (h_remove ab H) lo \<in> N"
    and ba: "beg (avail s) \<in> N"
    and nba: "v_next (h_remove lo (h_remove ab H)) (beg (avail s)) \<in> N"
    and lba: "lo \<noteq> beg (avail s)"
  shows "\<exists>m'. el_merge_block_with_above lo s =
      Some (s\<lparr>avail := (avail s)\<lparr>length' := length' (avail s) - 1 - 1 + 1,
            bytes := bytes (avail s) - (40 + v_size H ab) - (40 + v_size H lo)
                     + (40 + (v_size H lo + v_size H ab + 40))\<rparr>, mem := m'\<rparr>) \<and>
    same_on N F m' (h_merge (beg (avail s)) lo ab fa H)"
proof -
  note D = same_onD [OF R]
  have lo0: "lo \<noteq> 0" and ab0: "ab \<noteq> 0" using geo_nodeD(1) [OF g] lo ab by auto
  have above: "el_block_above s lo = Some ab"
    using el_block_above_view [OF g R lo] eab nend by simp
  have gl: "get_state s lo = Some EL_AVAILABLE" "get_state s ab = Some EL_AVAILABLE"
    "get_size s lo = Some (v_size H lo)" "get_size s ab = Some (v_size H ab)"
    "el_get_footer s ab = Some fa"
    using D(1,2) lo ab lo0 ab0 stl sta efa by (simp_all add: el_get_footer_def el_prims)
  obtain m1 where s1: "el_remove_block AVAIL ab s =
      Some (put_list AVAIL ((get_list AVAIL s)\<lparr>length' := length' (get_list AVAIL s) - 1,
            bytes := bytes (get_list AVAIL s) - (40 + v_size H ab)\<rparr>) (s\<lparr>mem := m1\<rparr>))"
    and R1: "same_on N F m1 (h_remove ab H)"
    using el_remove_block_h [OF g R ab pa na, of AVAIL] by blast
  define s1 where "s1 = put_list AVAIL ((get_list AVAIL s)\<lparr>length' := length' (get_list AVAIL s) - 1,
            bytes := bytes (get_list AVAIL s) - (40 + v_size H ab)\<rparr>) (s\<lparr>mem := m1\<rparr>)"
  define H1 where "H1 = h_remove ab H"
  have R1': "same_on N F (mem s1) H1" using R1 by (simp add: s1_def H1_def)
  have pl': "v_prev H1 lo \<in> N" and nl': "v_next H1 lo \<in> N" using pl nl by (simp_all add: H1_def)
  obtain m2 where s2: "el_remove_block AVAIL lo s1 =
      Some (put_list AVAIL ((get_list AVAIL s1)\<lparr>length' := length' (get_list AVAIL s1) - 1,
            bytes := bytes (get_list AVAIL s1) - (40 + v_size H1 lo)\<rparr>) (s1\<lparr>mem := m2\<rparr>))"
    and R2: "same_on N F m2 (h_remove lo H1)"
    using el_remove_block_h [OF g R1' lo pl' nl', of AVAIL] by blast
  define s2 where "s2 = put_list AVAIL ((get_list AVAIL s1)\<lparr>length' := length' (get_list AVAIL s1) - 1,
            bytes := bytes (get_list AVAIL s1) - (40 + v_size H1 lo)\<rparr>) (s1\<lparr>mem := m2\<rparr>)"
  define H2 where "H2 = h_remove lo H1"
  have R2': "same_on N F (mem s2) H2" using R2 by (simp add: s2_def H2_def)
  define t where "t = v_size H lo + v_size H ab + 40"
  obtain m3 where s3: "(set_size lo t s2 \<bind> set_foot_size fa t) = Some (s2\<lparr>mem := m3\<rparr>)"
    and R3: "same_on N F m3 (H2\<lparr>v_size := (v_size H2)(lo := t), v_foot := (v_foot H2)(fa := t)\<rparr>)"
    using same_on_set_size_foot [OF g R2' lo fa] by blast
  define s3 where "s3 = s2\<lparr>mem := m3\<rparr>"
  define H3 where "H3 = H2\<lparr>v_size := (v_size H2)(lo := t), v_foot := (v_foot H2)(fa := t)\<rparr>"
  have R3': "same_on N F (mem s3) H3" using R3 by (simp add: s3_def H3_def)
  have b3: "beg (get_list AVAIL s3) \<in> N" "v_next H3 (beg (get_list AVAIL s3)) \<in> N"
    "lo \<noteq> beg (get_list AVAIL s3)"
    using ba nba lba by (simp_all add: s3_def s2_def s1_def H3_def H2_def H1_def)
  obtain m4 where s4: "el_add_block_front AVAIL lo s3 =
      Some (put_list AVAIL ((get_list AVAIL s3)\<lparr>length' := length' (get_list AVAIL s3) + 1,
            bytes := bytes (get_list AVAIL s3) + (40 + v_size H3 lo)\<rparr>) (s3\<lparr>mem := m4\<rparr>))"
    and R4: "same_on N F m4 (h_add_front (beg (get_list AVAIL s3)) lo H3)"
    using el_add_block_front_h [OF g R3' lo b3] by blast
  have HH: "h_add_front (beg (get_list AVAIL s3)) lo H3 = h_merge (beg (avail s)) lo ab fa H"
    by (simp add: h_merge_def Let_def H3_def H2_def H1_def t_def s3_def s2_def s1_def)
  have c1: "el_remove_block AVAIL ab s = Some s1" unfolding s1_def by (rule s1)
  have c2: "el_remove_block AVAIL lo s1 = Some s2" unfolding s2_def by (rule s2)
  have c3: "(set_size lo t s2 \<bind> set_foot_size fa t) = Some s3" unfolding s3_def by (rule s3)
  have c3': "set_size lo (v_size H lo + v_size H ab + 40) s2 \<bind>
      (\<lambda>s. set_foot_size fa (v_size H lo + v_size H ab + 40) s \<bind> el_add_block_front AVAIL lo) =
      el_add_block_front AVAIL lo s3"
    using c3 unfolding t_def by (cases "set_size lo (v_size H lo + v_size H ab + 40) s2") auto
  have "el_merge_block_with_above lo s = el_add_block_front AVAIL lo s3"
    using lo0 ab0
    by (simp add: el_merge_block_with_above_def above gl c1 c2 c3' NULL_def EL_BLOCK_OVERHEAD_def
        sizeof_blockhead_def sizeof_blockfoot_def)
  moreover have "put_list AVAIL ((get_list AVAIL s3)\<lparr>length' := length' (get_list AVAIL s3) + 1,
            bytes := bytes (get_list AVAIL s3) + (40 + v_size H3 lo)\<rparr>) (s3\<lparr>mem := m4\<rparr>) =
      s\<lparr>avail := (avail s)\<lparr>length' := length' (avail s) - 1 - 1 + 1,
            bytes := bytes (avail s) - (40 + v_size H ab) - (40 + v_size H lo)
                     + (40 + (v_size H lo + v_size H ab + 40))\<rparr>, mem := m4\<rparr>"
    by (simp add: s3_def s2_def s1_def H3_def H1_def t_def)
  ultimately show ?thesis using s4 R4 HH by auto
qed

lemma el_merge_noop:
  assumes g: "geo N F" and R: "same_on N F (mem s) H" and lo: "lo \<in> N"
    and eab: "lo + (v_size H lo + 40) = ab"
    and c: "heap_end s \<le> ab \<or> v_state H lo \<noteq> EL_AVAILABLE \<or>
         (ab \<in> N \<and> v_state H ab \<noteq> EL_AVAILABLE)"
  shows "el_merge_block_with_above lo s = Some s"
proof -
  note D = same_onD [OF R]
  have lo0: "lo \<noteq> 0" using geo_nodeD(1) [OF g lo] .
  have gl: "get_state s lo = Some (v_state H lo)" using D(2) [OF lo] lo0 by (simp add: el_prims)
  have ga: "ab \<in> N \<Longrightarrow> get_state s ab = Some (v_state H ab)"
    using D(2) geo_nodeD(1) [OF g] by (simp add: el_prims)
  have above: "el_block_above s lo = Some (if heap_end s \<le> ab then NULL else ab)"
    using el_block_above_view [OF g R lo] eab by simp
  show ?thesis using c lo0 gl ga
    by (auto simp: el_merge_block_with_above_def above NULL_def)
qed

lemma linked_remove1:
  assumes "linked H b xs e" "z \<in> set xs"
  shows "linked (h_remove z H) b (remove1 z xs) e"
proof -
  obtain a1 a2 where xs: "xs = a1 @ z # a2" using assms(2) by (auto dest: split_list)
  have "distinct xs" using assms(1) by (simp add: linked_def)
  then have "remove1 z xs = a1 @ a2" using xs by (simp add: remove1_append)
  then show ?thesis using linked_remove [of H b a1 z a2 e] assms(1) xs by simp
qed

lemma linked_closed:
  assumes "linked H b xs e" "set xs \<subseteq> N" "b \<in> N" "e \<in> N"
  shows "z \<in> set (b # xs) \<Longrightarrow> v_next H z \<in> N" "z \<in> set (xs @ [e]) \<Longrightarrow> v_prev H z \<in> N"
proof -
  have d: "dll (v_next H) (v_prev H) b xs e" using assms(1) by (simp add: linked_def)
  show "z \<in> set (b # xs) \<Longrightarrow> v_next H z \<in> N"
    using dll_next_mem [OF d, of z] assms(2-4) by auto
  show "z \<in> set (xs @ [e]) \<Longrightarrow> v_prev H z \<in> N"
    using dll_prev_mem [OF d, of z] assms(2-4) by auto
qed

lemma h_merge_fields:
  "v_size (h_merge ba lo ab fa H) = (v_size H)(lo := v_size H lo + v_size H ab + 40)"
  "v_foot (h_merge ba lo ab fa H) = (v_foot H)(fa := v_size H lo + v_size H ab + 40)"
  "v_state (h_merge ba lo ab fa H) = v_state H"
  by (simp_all add: h_merge_def Let_def)

lemma h_merge_linked:
  assumes la: "linked H ba av ea" and lu: "linked H bu us eu"
    and dj: "set (ba # av @ [ea]) \<inter> set (bu # us @ [eu]) = {}"
    and lo: "lo \<in> set av" and ab: "ab \<in> set av" and ne: "lo \<noteq> ab"
  shows "linked (h_merge ba lo ab fa H) ba (lo # remove1 lo (remove1 ab av)) ea"
    and "linked (h_merge ba lo ab fa H) bu us eu"
proof -
  define H1 where "H1 = h_remove ab H"
  define H2 where "H2 = h_remove lo H1"
  define H3 where "H3 = H2\<lparr>v_size := (v_size H2)(lo := v_size H lo + v_size H ab + 40),
                  v_foot := (v_foot H2)(fa := v_size H lo + v_size H ab + 40)\<rparr>"
  have HH: "h_merge ba lo ab fa H = h_add_front ba lo H3"
    by (simp add: h_merge_def Let_def H3_def H2_def H1_def)
  have dj': "set (bu # us @ [eu]) \<inter> set (ba # av @ [ea]) = {}" using dj by auto
  have a1: "linked H1 ba (remove1 ab av) ea" unfolding H1_def using la ab by (rule linked_remove1)
  have u1: "linked H1 bu us eu" unfolding H1_def using lu la ab dj' by (rule linked_remove_other)
  have lo1: "lo \<in> set (remove1 ab av)" using lo ne by simp
  have sub1: "set (remove1 ab av) \<subseteq> set av" by (rule set_remove1_subset)
  have dj1: "set (bu # us @ [eu]) \<inter> set (ba # remove1 ab av @ [ea]) = {}"
    using dj' sub1 by auto
  have a2: "linked H2 ba (remove1 lo (remove1 ab av)) ea"
    unfolding H2_def using a1 lo1 by (rule linked_remove1)
  have u2: "linked H2 bu us eu" unfolding H2_def using u1 a1 lo1 dj1 by (rule linked_remove_other)
  have a3: "linked H3 ba (remove1 lo (remove1 ab av)) ea" and u3: "linked H3 bu us eu"
    using a2 u2 by (simp_all add: H3_def)
  have d1: "distinct (ba # remove1 ab av @ [ea])" using a1 by (simp add: linked_def)
  have lon: "lo \<notin> set (ba # remove1 lo (remove1 ab av) @ [ea])"
    using d1 lo1 by auto
  have sub2: "set (remove1 lo (remove1 ab av)) \<subseteq> set av"
    using set_remove1_subset [of lo "remove1 ab av"] sub1 by auto
  have dj2: "set (bu # us @ [eu]) \<inter> set (ba # remove1 lo (remove1 ab av) @ [ea]) = {}"
    using dj' sub2 by auto
  have lou: "lo \<notin> set (bu # us @ [eu])" using dj lo by auto
  show "linked (h_merge ba lo ab fa H) ba (lo # remove1 lo (remove1 ab av)) ea"
    unfolding HH using a3 lon by (rule linked_add_front)
  show "linked (h_merge ba lo ab fa H) bu us eu"
    unfolding HH using u3 a3 lou dj2 by (rule linked_add_front_other)
qed

lemma chain_merge:
  assumes ch: "chain a (pre @ (lo, sz, f) # (ab, sz', f') # post) e" and e: "e < 2 ^ 64"
  shows "chain a (pre @ (lo, sz + sz' + 40, g) # post) e"
    and "ab = lo + (sz + 40)"
    and "unat (sz + sz' + 40) = unat sz + unat sz' + 40"
proof -
  obtain c where c1: "chain a pre c" and c2: "chain c ((lo, sz, f) # (ab, sz', f') # post) e"
    using ch by (auto simp: chain_append)
  have ul: "unat lo = c" and ua: "unat ab = c + unat sz + 40"
    and c3: "chain (c + unat sz + 40 + unat sz' + 40) post e"
    using c2 by auto
  have le: "c + unat sz + 40 + unat sz' + 40 \<le> e" using chain_le [OF c3] .
  have s40: "unat (sz + 40) = unat sz + 40" using le e by (simp add: unat_word_ariths)
  have "unat (lo + (sz + 40)) = unat lo + unat sz + 40"
    using le e ul s40 by (simp add: unat_word_ariths)
  then show "ab = lo + (sz + 40)" using ua ul by (simp add: word_unat_eq_iff)
  have "unat (sz + sz') = unat sz + unat sz'" using le e by (simp add: unat_word_ariths)
  then show ut: "unat (sz + sz' + 40) = unat sz + unat sz' + 40"
    using le e by (simp add: unat_word_ariths)
  have "chain c ((lo, sz + sz' + 40, g) # post) e"
    using ul ut c3 by (simp add: add.assoc add.commute add.left_commute)
  then show "chain a (pre @ (lo, sz + sz' + 40, g) # post) e"
    using c1 by (auto simp: chain_append)
qed

lemma h_merge_tagged:
  assumes t: "tagged H (pre @ (lo, sz, True) # (ab, sz', True) # post)"
    and dA: "distinct (map fst (pre @ (lo, sz, True) # (ab, sz', True) # post))"
    and dF: "distinct (map (\<lambda>(b, sz, f). b + (32 + sz))
               (pre @ (lo, sz, True) # (ab, sz', True) # post))"
    and fa: "fa = ab + (32 + sz')" and eab: "ab = lo + (sz + 40)"
  shows "tagged (h_merge ba lo ab fa H) (pre @ (lo, sz + sz' + 40, True) # post)"
proof -
  let ?H = "h_merge ba lo ab fa H"
  have S: "v_size H lo = sz" "v_size H ab = sz'" "v_state H lo = tag True"
    using t by (simp_all add: tagged_def)
  have fr: "tagged ?H bs" if sub: "set bs \<subseteq> set pre \<union> set post" and tg: "tagged H bs" for bs
  proof (rule tagged_frame [OF tg])
    fix b s f assume "(b, s, f) \<in> set bs"
    then have m: "(b, s, f) \<in> set pre \<union> set post" using sub by auto
    then have "b \<noteq> lo" using dA by (auto simp: image_iff)
    moreover have "b + (32 + s) \<noteq> fa"
      using m dF fa by (auto simp: image_iff)
    ultimately show "v_size ?H b = v_size H b \<and> v_state ?H b = v_state H b \<and>
      v_foot ?H (b + (32 + s)) = v_foot H (b + (32 + s))"
      by (simp add: h_merge_fields)
  qed
  have "tagged ?H pre" "tagged ?H post"
    using fr [of pre] fr [of post] t by (simp_all add: tagged_append tagged_def)
  moreover have "lo + (32 + (sz + sz' + 40)) = fa" by (simp add: fa eab)
  then have "tagged ?H [(lo, sz + sz' + 40, True)]"
    using S by (simp add: tagged_def h_merge_fields)
  ultimately show ?thesis
    using tagged_append [of ?H pre "(lo, sz + sz' + 40, True) # post"]
      tagged_append [of ?H "[(lo, sz + sz' + 40, True)]" post]
    by simp
qed

lemma wf0_merge_do:
  assumes wf: "wf0 s (pre @ (lo, sz, True) # (ab, sz', True) # post) av us"
  shows "\<exists>s'. el_merge_block_with_above lo s = Some s' \<and> same_ctl s s' \<and>
     wf0 s' (pre @ (lo, sz + sz' + 40, True) # post) (lo # remove1 lo (remove1 ab av)) us \<and>
     (\<forall>z\<in>fst ` set pre \<union> {lo, ab} \<union> fst ` set post. mem s' (z + 8) = mem s (z + 8))"
proof -
  define bs where "bs = pre @ (lo, sz, True) # (ab, sz', True) # post"
  define bs' where "bs' = pre @ (lo, sz + sz' + 40, True) # post"
  define fa where "fa = ab + (32 + sz')"
  define H where "H = view_of (mem s)"
  define N where "N = block_addrs bs \<union> sentinel_set s"
  define F where "F = block_foots bs"
  let ?ba = "beg (avail s)" and ?ea = "end' (avail s)" and ?bu = "beg (used s)" and ?eu = "end' (used s)"
  note D = wf0D [OF wf [folded bs_def]]
  have ch: "chain (unat (heap_start s)) bs (unat (heap_end s))" and so: "sentinels_ok s"
    and pos: "0 < unat (heap_start s)"
    using D(1) by (simp_all add: arena_ok_def)
  have e: "unat (heap_end s) < 2 ^ 64"
    using unsigned_less [of "heap_end s", where ?'a = nat] by simp
  have ch': "chain (unat (heap_start s)) bs' (unat (heap_end s))"
    unfolding bs'_def using ch e unfolding bs_def by (rule chain_merge(1))
  have eab: "ab = lo + (sz + 40)" using ch e unfolding bs_def by (rule chain_merge(2))
  have a': "arena_ok s bs'" using D(1) ch' by (simp add: arena_ok_def)
  have g: "geo N F" unfolding N_def F_def using D(2) .
  have R: "same_on N F (mem s) H" unfolding H_def by (rule same_on_view_of)
  have h: "heap_ok H s bs av us" using D(7) by (simp add: H_def)
  have la: "linked H ?ba av ?ea" and lu: "linked H ?bu us ?eu" and tg: "tagged H bs"
    using h by (simp_all add: heap_ok_def)
  have S: "v_size H lo = sz" "v_size H ab = sz'" "v_state H lo = EL_AVAILABLE"
    "v_state H ab = EL_AVAILABLE"
    using tg by (simp_all add: tagged_def bs_def tag_def)
  have loav: "lo \<in> set av" and abav: "ab \<in> set av"
    using D(8) by (simp_all add: counts_ok_def bs_def)
  have subN: "block_addrs bs \<subseteq> N" "sentinel_set s \<subseteq> N" by (auto simp: N_def)
  have sN: "?ba \<in> N" "?ea \<in> N" "?bu \<in> N" "?eu \<in> N"
    using subN(2) by (auto simp: sentinel_set_def)
  have avN: "set av \<subseteq> N" and usN: "set us \<subseteq> N" using D(3,4) subN(1) by auto
  have loN: "lo \<in> N" and abN: "ab \<in> N" by (simp_all add: N_def bs_def)
  have faF: "fa \<in> F" by (simp add: F_def bs_def fa_def)
  have dA: "distinct (map fst bs)" using chain_addrs_distinct [OF ch] .
  have dF: "distinct (map (\<lambda>(b, sz, f). b + (32 + sz)) bs)"
    using chain_foots_distinct [OF ch e] .
  have ne: "lo \<noteq> ab" using dA by (simp add: bs_def)
  have "unat ab + unat sz' + 40 \<le> unat (heap_end s)"
    using chain_bounds [OF ch, of ab sz' True] by (simp add: bs_def)
  then have nend: "\<not> heap_end s \<le> ab" by (simp add: word_le_nat_alt)
  have eab': "lo + (v_size H lo + 40) = ab" using eab S by simp
  have efa: "ab + (32 + v_size H ab) = fa" by (simp add: fa_def S)
  have pa: "v_prev H ab \<in> N" and na: "v_next H ab \<in> N"
    using linked_closed [OF la avN sN(1,2)] abav by auto
  have l1: "linked (h_remove ab H) ?ba (remove1 ab av) ?ea" using la abav by (rule linked_remove1)
  have lo1: "lo \<in> set (remove1 ab av)" using loav ne by simp
  have av1N: "set (remove1 ab av) \<subseteq> N" using avN set_remove1_subset [of ab av] by auto
  have pl: "v_prev (h_remove ab H) lo \<in> N" and nl: "v_next (h_remove ab H) lo \<in> N"
    using linked_closed [OF l1 av1N sN(1,2)] lo1 by auto
  have l2: "linked (h_remove lo (h_remove ab H)) ?ba (remove1 lo (remove1 ab av)) ?ea"
    using l1 lo1 by (rule linked_remove1)
  have av2N: "set (remove1 lo (remove1 ab av)) \<subseteq> N"
    using av1N set_remove1_subset [of lo "remove1 ab av"] by auto
  have nba: "v_next (h_remove lo (h_remove ab H)) ?ba \<in> N"
    using linked_closed(1) [OF l2 av2N sN(1,2)] by auto
  have losent: "lo \<notin> sentinel_set s" using arena_sentinel_fresh [OF D(1)] by (auto simp: bs_def)
  then have lba: "lo \<noteq> ?ba" by (auto simp: sentinel_set_def)
  obtain m' where res: "el_merge_block_with_above lo s =
      Some (s\<lparr>avail := (avail s)\<lparr>length' := length' (avail s) - 1 - 1 + 1,
            bytes := bytes (avail s) - (40 + v_size H ab) - (40 + v_size H lo)
                     + (40 + (v_size H lo + v_size H ab + 40))\<rparr>, mem := m'\<rparr>)"
    and R': "same_on N F m' (h_merge ?ba lo ab fa H)"
    using el_merge_view [OF g R loN abN faF eab' nend S(3,4) efa pa na pl nl sN(1) nba lba]
    by blast
  define s' where "s' = s\<lparr>avail := (avail s)\<lparr>length' := length' (avail s) - 1 - 1 + 1,
            bytes := bytes (avail s) - (40 + v_size H ab) - (40 + v_size H lo)
                     + (40 + (v_size H lo + v_size H ab + 40))\<rparr>, mem := m'\<rparr>"
  have sc: "same_ctl s s'" by (simp add: same_ctl_def s'_def)
  have ms': "mem s' = m'" by (simp add: s'_def)
  let ?H = "h_merge ?ba lo ab fa H"
  let ?av = "lo # remove1 lo (remove1 ab av)"
  have t': "tagged ?H bs'"
    unfolding bs'_def
    using h_merge_tagged [OF tg [unfolded bs_def] dA [unfolded bs_def] dF [unfolded bs_def]
        fa_def eab] .
  have l': "linked ?H ?ba ?av ?ea" "linked ?H ?bu us ?eu"
    using h_merge_linked [OF la lu D(6) loav abav ne] .
  have hk: "heap_ok ?H s bs' ?av us" using t' l' by (simp add: heap_ok_def)
  have "heap_ok (view_of m') s bs' ?av us"
  proof (rule heap_ok_transfer [OF R' hk])
    show "block_addrs bs' \<subseteq> N" "sentinel_set s \<subseteq> N" "block_foots bs' \<subseteq> F"
      using eab by (auto simp: N_def F_def bs_def bs'_def)
    show "set ?av \<subseteq> N" using loN av2N by auto
    show "set us \<subseteq> N" using usN .
  qed
  then have h': "heap_ok (view_of (mem s')) s' bs' ?av us"
    using same_ctl_heap [OF sc] ms' by simp
  have c: "counts_ok s bs av us" using D(8) .
  have dav: "distinct av" using la by (simp add: linked_def)
  have npp: "lo \<notin> flagged True pre" "lo \<notin> flagged True post"
    "ab \<notin> flagged True pre" "ab \<notin> flagged True post"
    using dA flagged_sub [of True pre] flagged_sub [of True post]
    by (auto simp: bs_def block_addrs_def)
  have len: "2 \<le> length av"
  proof -
    have "card {lo, ab} \<le> card (set av)" using loav abav by (intro card_mono) auto
    then show ?thesis using ne distinct_card [OF dav] by simp
  qed
  have c': "counts_ok s' bs' ?av us"
    using c dav loav abav ne npp len
    by (auto simp: counts_ok_def s'_def bs_def bs'_def S length_remove1 of_nat_diff)
  have w: "wf0 s' bs' ?av us"
    using a' same_ctl_arena [OF sc] h' c' by (simp add: wf0_def)
  have st: "\<forall>z\<in>fst ` set pre \<union> {lo, ab} \<union> fst ` set post. mem s' (z + 8) = mem s (z + 8)"
  proof
    fix z assume "z \<in> fst ` set pre \<union> {lo, ab} \<union> fst ` set post"
    then have "z \<in> N" by (auto simp: N_def bs_def block_addrs_def)
    then show "mem s' (z + 8) = mem s (z + 8)"
      using same_onD(2) [OF R'] by (simp add: ms' h_merge_fields H_def view_of_def)
  qed
  show ?thesis using res sc w st unfolding s'_def [symmetric] bs'_def by blast
qed

lemma wf0_merge_last:
  assumes wf: "wf0 s (pre @ [(lo, sz, f)]) av us"
  shows "el_merge_block_with_above lo s = Some s"
proof -
  define bs where "bs = pre @ [(lo, sz, f)]"
  note D = wf0D [OF wf [folded bs_def]]
  have ch: "chain (unat (heap_start s)) bs (unat (heap_end s))"
    using D(1) by (simp_all add: arena_ok_def)
  have e: "unat (heap_end s) < 2 ^ 64"
    using unsigned_less [of "heap_end s", where ?'a = nat] by simp
  obtain c where "chain c [(lo, sz, f)] (unat (heap_end s))"
    using ch by (auto simp: bs_def chain_append)
  then have u: "unat lo + unat sz + 40 = unat (heap_end s)" by auto
  then have "unat (sz + 40) = unat sz + 40" using e by (simp add: unat_word_ariths)
  then have "unat (lo + (sz + 40)) = unat (heap_end s)" using u e by (simp add: unat_word_ariths)
  then have top: "heap_end s \<le> lo + (sz + 40)" by (simp add: word_le_nat_alt)
  have tg: "tagged (view_of (mem s)) bs" using D(7) by (simp add: heap_ok_def)
  have S: "v_size (view_of (mem s)) lo = sz" using tg by (simp add: tagged_def bs_def)
  have loN: "lo \<in> block_addrs bs \<union> sentinel_set s" by (simp add: bs_def)
  show ?thesis
    using el_merge_noop [OF D(2) same_on_view_of loN, where ab = "lo + (sz + 40)"] S top by simp
qed

lemma wf0_merge_skip:
  assumes wf: "wf0 s (pre @ (lo, sz, f) # (ab, sz', f') # post) av us" and nf: "\<not> (f \<and> f')"
  shows "el_merge_block_with_above lo s = Some s"
proof -
  define bs where "bs = pre @ (lo, sz, f) # (ab, sz', f') # post"
  note D = wf0D [OF wf [folded bs_def]]
  have ch: "chain (unat (heap_start s)) bs (unat (heap_end s))"
    using D(1) by (simp_all add: arena_ok_def)
  have e: "unat (heap_end s) < 2 ^ 64"
    using unsigned_less [of "heap_end s", where ?'a = nat] by simp
  have eab: "ab = lo + (sz + 40)" using ch e unfolding bs_def by (rule chain_merge(2))
  have tg: "tagged (view_of (mem s)) bs" using D(7) by (simp add: heap_ok_def)
  have S: "v_size (view_of (mem s)) lo = sz" "v_state (view_of (mem s)) lo = tag f"
    "v_state (view_of (mem s)) ab = tag f'"
    using tg by (simp_all add: tagged_def bs_def)
  have N: "lo \<in> block_addrs bs \<union> sentinel_set s" "ab \<in> block_addrs bs \<union> sentinel_set s"
    by (simp_all add: bs_def)
  have "v_state (view_of (mem s)) lo \<noteq> EL_AVAILABLE \<or> v_state (view_of (mem s)) ab \<noteq> EL_AVAILABLE"
    using nf S by (auto simp: tag_def EL_AVAILABLE_def EL_USED_def)
  then show ?thesis
    using el_merge_noop [OF D(2) same_on_view_of N(1), where ab = ab] S(1) eab N(2) by auto
qed

lemma h_release_fields:
  "v_size (h_release ba h H) = v_size H" "v_foot (h_release ba h H) = v_foot H"
  "v_state (h_release ba h H) = (v_state H)(h := EL_AVAILABLE)"
  by (simp_all add: h_release_def Let_def)

lemma el_free_view:
  assumes g: "geo N F" and R: "same_on N F (mem s) H" and h: "h \<in> N"
    and st: "v_state H h \<noteq> EL_AVAILABLE" and below: "el_block_below s h = Some bf"
    and ph: "v_prev H h \<in> N" and nh: "v_next H h \<in> N"
    and ba: "beg (avail s) \<in> N" and nba: "v_next (h_remove h H) (beg (avail s)) \<in> N"
    and hba: "h \<noteq> beg (avail s)"
  shows "\<exists>m'. same_on N F m' (h_release (beg (avail s)) h H) \<and>
     el_free (h + 32) s =
       el_merge_block_with_above h
         (s\<lparr>avail := (avail s)\<lparr>length' := length' (avail s) + 1,
                  bytes := bytes (avail s) + (40 + v_size H h)\<rparr>,
             used := (used s)\<lparr>length' := length' (used s) - 1,
                  bytes := bytes (used s) - (40 + v_size H h)\<rparr>, mem := m'\<rparr>) \<bind>
       (\<lambda>s4. if bf \<noteq> NULL then el_merge_block_with_above bf s4 else Some s4)"
proof -
  have h0: "h \<noteq> 0" using geo_nodeD(1) [OF g h] .
  have gs: "get_state s h = Some (v_state H h)"
    using same_onD(2) [OF R h] h0 by (simp add: el_prims)
  obtain m1 where s1: "el_remove_block USED h s =
      Some (put_list USED ((get_list USED s)\<lparr>length' := length' (get_list USED s) - 1,
            bytes := bytes (get_list USED s) - (40 + v_size H h)\<rparr>) (s\<lparr>mem := m1\<rparr>))"
    and R1: "same_on N F m1 (h_remove h H)"
    using el_remove_block_h [OF g R h ph nh, of USED] by blast
  define s1 where "s1 = put_list USED ((get_list USED s)\<lparr>length' := length' (get_list USED s) - 1,
            bytes := bytes (get_list USED s) - (40 + v_size H h)\<rparr>) (s\<lparr>mem := m1\<rparr>)"
  define H1 where "H1 = h_remove h H"
  have R1': "same_on N F (mem s1) H1" using R1 by (simp add: s1_def H1_def)
  obtain m2 where s2: "set_state h EL_AVAILABLE s1 = Some (s1\<lparr>mem := m2\<rparr>)"
    and R2: "same_on N F m2 (H1\<lparr>v_state := (v_state H1)(h := EL_AVAILABLE)\<rparr>)"
    using set_state_view [OF g R1' h] by blast
  define s2 where "s2 = s1\<lparr>mem := m2\<rparr>"
  define H2 where "H2 = H1\<lparr>v_state := (v_state H1)(h := EL_AVAILABLE)\<rparr>"
  have R2': "same_on N F (mem s2) H2" using R2 by (simp add: s2_def H2_def)
  have b2: "beg (get_list AVAIL s2) \<in> N" "v_next H2 (beg (get_list AVAIL s2)) \<in> N"
    "h \<noteq> beg (get_list AVAIL s2)"
    using ba nba hba by (simp_all add: s2_def s1_def H2_def H1_def)
  obtain m3 where s3: "el_add_block_front AVAIL h s2 =
      Some (put_list AVAIL ((get_list AVAIL s2)\<lparr>length' := length' (get_list AVAIL s2) + 1,
            bytes := bytes (get_list AVAIL s2) + (40 + v_size H2 h)\<rparr>) (s2\<lparr>mem := m3\<rparr>))"
    and R3: "same_on N F m3 (h_add_front (beg (get_list AVAIL s2)) h H2)"
    using el_add_block_front_h [OF g R2' h b2] by blast
  define s3 where "s3 = put_list AVAIL ((get_list AVAIL s2)\<lparr>length' := length' (get_list AVAIL s2) + 1,
            bytes := bytes (get_list AVAIL s2) + (40 + v_size H2 h)\<rparr>) (s2\<lparr>mem := m3\<rparr>)"
  have HH: "h_add_front (beg (get_list AVAIL s2)) h H2 = h_release (beg (avail s)) h H"
    by (simp add: h_release_def Let_def H2_def H1_def s2_def s1_def)
  have c1: "el_remove_block USED h s = Some s1" unfolding s1_def by (rule s1)
  have c2: "set_state h EL_AVAILABLE s1 = Some s2" unfolding s2_def by (rule s2)
  have c3: "el_add_block_front AVAIL h s2 = Some s3" unfolding s3_def by (rule s3)
  have "el_free (h + 32) s = el_merge_block_with_above h s3 \<bind>
       (\<lambda>s4. if bf \<noteq> NULL then el_merge_block_with_above bf s4 else Some s4)"
    using st by (simp add: el_free_def sizeof_blockhead_def gs below c1 c2 c3)
  moreover have "s3 = s\<lparr>avail := (avail s)\<lparr>length' := length' (avail s) + 1,
                  bytes := bytes (avail s) + (40 + v_size H h)\<rparr>,
             used := (used s)\<lparr>length' := length' (used s) - 1,
                  bytes := bytes (used s) - (40 + v_size H h)\<rparr>, mem := m3\<rparr>"
    by (simp add: s3_def s2_def s1_def H2_def H1_def)
  ultimately show ?thesis using R3 HH by auto
qed

lemma h_release_linked:
  assumes la: "linked H ba av ea" and lu: "linked H bu us eu"
    and dj: "set (ba # av @ [ea]) \<inter> set (bu # us @ [eu]) = {}"
    and h: "h \<in> set us"
  shows "linked (h_release ba h H) ba (h # av) ea"
    and "linked (h_release ba h H) bu (remove1 h us) eu"
proof -
  define H1 where "H1 = h_remove h H"
  define H2 where "H2 = H1\<lparr>v_state := (v_state H1)(h := EL_AVAILABLE)\<rparr>"
  have HH: "h_release ba h H = h_add_front ba h H2"
    by (simp add: h_release_def Let_def H2_def H1_def)
  have u1: "linked H1 bu (remove1 h us) eu" unfolding H1_def using lu h by (rule linked_remove1)
  have a1: "linked H1 ba av ea" unfolding H1_def using la lu h dj by (rule linked_remove_other)
  have a2: "linked H2 ba av ea" and u2: "linked H2 bu (remove1 h us) eu"
    using a1 u1 by (simp_all add: H2_def)
  have ha: "h \<notin> set (ba # av @ [ea])" using dj h by auto
  have du: "distinct (bu # us @ [eu])" using lu by (simp add: linked_def)
  have hu: "h \<notin> set (bu # remove1 h us @ [eu])" using du h by auto
  have dj2: "set (bu # remove1 h us @ [eu]) \<inter> set (ba # av @ [ea]) = {}"
    using dj set_remove1_subset [of h us] by auto
  show "linked (h_release ba h H) ba (h # av) ea"
    unfolding HH using a2 ha by (rule linked_add_front)
  show "linked (h_release ba h H) bu (remove1 h us) eu"
    unfolding HH using u2 a2 hu dj2 by (rule linked_add_front_other)
qed

lemma h_release_tagged:
  assumes t: "tagged H (pre @ (h, S, False) # post)"
    and dA: "distinct (map fst (pre @ (h, S, False) # post))"
  shows "tagged (h_release ba h H) (pre @ (h, S, True) # post)"
proof -
  let ?H = "h_release ba h H"
  have fr: "tagged ?H bs" if sub: "set bs \<subseteq> set pre \<union> set post" and tg: "tagged H bs" for bs
  proof (rule tagged_frame [OF tg])
    fix b s f assume "(b, s, f) \<in> set bs"
    then have "(b, s, f) \<in> set pre \<union> set post" using sub by auto
    then have "b \<noteq> h" using dA by (auto simp: image_iff)
    then show "v_size ?H b = v_size H b \<and> v_state ?H b = v_state H b \<and>
      v_foot ?H (b + (32 + s)) = v_foot H (b + (32 + s))"
      by (simp add: h_release_fields)
  qed
  have "tagged ?H pre" "tagged ?H post"
    using fr [of pre] fr [of post] t by (simp_all add: tagged_append tagged_def)
  moreover have "v_size H h = S \<and> v_foot H (h + (32 + S)) = S"
    using t unfolding tagged_def by (elim allE [where x = h] allE [where x = S] allE [where x = False]) simp
  then have "tagged ?H [(h, S, True)]"
    by (simp add: tagged_def h_release_fields tag_def)
  ultimately show ?thesis
    using tagged_append [of ?H pre "(h, S, True) # post"]
      tagged_append [of ?H "[(h, S, True)]" post]
    by simp
qed

lemma taggedD:
  "tagged H bs \<Longrightarrow> (b, sz, f) \<in> set bs \<Longrightarrow>
     v_size H b = sz \<and> v_foot H (b + (32 + sz)) = sz \<and> v_state H b = tag f"
  unfolding tagged_def by blast

lemma tag_neq [simp]: "tag False \<noteq> EL_AVAILABLE" "tag True = EL_AVAILABLE"
  by (simp_all add: tag_def EL_AVAILABLE_def EL_USED_def)

lemma of_nat_length_pred:
  "xs \<noteq> [] \<Longrightarrow> (of_nat (length xs - Suc 0) :: 64 word) = of_nat (length xs) - 1"
  by (cases xs) simp_all

lemma wf0_block_below:
  assumes wf: "wf0 s (pre @ (h, S, f) # post) av us"
  shows "el_block_below s h = Some (if pre = [] then NULL else fst (last pre))"
proof -
  define bs where "bs = pre @ (h, S, f) # post"
  note D = wf0D [OF wf [folded bs_def]]
  have ch: "chain (unat (heap_start s)) bs (unat (heap_end s))"
    and hs: "8 \<le> unat (heap_start s)"
    using D(1) by (simp_all add: arena_ok_def)
  have e: "unat (heap_end s) < 2 ^ 64"
    using unsigned_less [of "heap_end s", where ?'a = nat] by simp
  show ?thesis
  proof (cases pre rule: rev_cases)
    case Nil
    then have "unat h = unat (heap_start s)" using ch by (simp add: bs_def)
    then have "unat (h - 8) < unat (heap_start s)" using hs by (simp add: unat_sub word_le_nat_alt)
    then have "h - 8 < heap_start s" by (simp add: word_less_nat_alt)
    then show ?thesis using Nil by (simp add: el_block_below_def sizeof_blockfoot_def)
  next
    case (snoc pre' w)
    obtain b sz g where w: "w = (b, sz, g)" by (cases w)
    have ch2: "chain (unat (heap_start s)) (pre' @ (b, sz, g) # (h, S, f) # post) (unat (heap_end s))"
      using ch by (simp add: bs_def snoc w)
    have eh: "h = b + (sz + 40)" using ch2 e by (rule chain_merge(2))
    have m: "(b, sz, g) \<in> set bs" by (simp add: bs_def snoc w)
    have uf: "unat (b + (32 + sz)) = unat b + 32 + unat sz" using chain_footer [OF ch e m] .
    have "unat (heap_start s) \<le> unat b" using chain_bounds [OF ch m] by simp
    then have nlt: "\<not> b + (32 + sz) < heap_start s" using uf by (simp add: word_less_nat_alt)
    have h8: "h - 8 = b + (32 + sz)" by (simp add: eh)
    have fF: "h - 8 \<in> block_foots bs" unfolding h8 by (simp add: bs_def snoc w)
    have tg: "tagged (view_of (mem s)) bs" using D(7) by (simp add: heap_ok_def)
    have vf: "v_foot (view_of (mem s)) (b + (32 + sz)) = sz" using taggedD [OF tg m] by simp
    have "el_block_below s h = Some b"
      using el_block_below_view [OF D(2) same_on_view_of fF] nlt vf by (simp add: h8)
    then show ?thesis using snoc w by simp
  qed
qed

lemma wf0_release:
  assumes wf: "wf0 s (pre @ (h, S, False) # post) av us"
  shows "\<exists>s3. same_ctl s s3 \<and> wf0 s3 (pre @ (h, S, True) # post) (h # av) (remove1 h us) \<and>
     (\<forall>z. z \<noteq> h \<longrightarrow> z \<in> fst ` set pre \<union> fst ` set post \<longrightarrow> mem s3 (z + 8) = mem s (z + 8)) \<and>
     el_free (h + 32) s = el_merge_block_with_above h s3 \<bind>
       (\<lambda>s4. if pre \<noteq> [] then el_merge_block_with_above (fst (last pre)) s4 else Some s4)"
proof -
  define bs where "bs = pre @ (h, S, False) # post"
  define bs' where "bs' = pre @ (h, S, True) # post"
  define H where "H = view_of (mem s)"
  define N where "N = block_addrs bs \<union> sentinel_set s"
  define F where "F = block_foots bs"
  define bf where "bf = (if pre = [] then NULL else fst (last pre))"
  let ?ba = "beg (avail s)" and ?ea = "end' (avail s)" and ?bu = "beg (used s)" and ?eu = "end' (used s)"
  note D = wf0D [OF wf [folded bs_def]]
  have ch: "chain (unat (heap_start s)) bs (unat (heap_end s))" and so: "sentinels_ok s"
    using D(1) by (simp_all add: arena_ok_def)
  have ch': "chain (unat (heap_start s)) bs' (unat (heap_end s))"
    using ch by (auto simp: bs_def bs'_def chain_append)
  have a': "arena_ok s bs'" using D(1) ch' by (simp add: arena_ok_def)
  have g: "geo N F" unfolding N_def F_def using D(2) .
  have R: "same_on N F (mem s) H" unfolding H_def by (rule same_on_view_of)
  have hk0: "heap_ok H s bs av us" using D(7) by (simp add: H_def)
  have la: "linked H ?ba av ?ea" and lu: "linked H ?bu us ?eu" and tg: "tagged H bs"
    using hk0 by (simp_all add: heap_ok_def)
  have S: "v_size H h = S" "v_state H h \<noteq> EL_AVAILABLE"
    using taggedD [OF tg, of h S False] by (simp_all add: bs_def)
  have hus: "h \<in> set us" using D(8) by (simp add: counts_ok_def bs_def)
  have subN: "block_addrs bs \<subseteq> N" "sentinel_set s \<subseteq> N" by (auto simp: N_def)
  have sN: "?ba \<in> N" "?ea \<in> N" "?bu \<in> N" "?eu \<in> N"
    using subN(2) by (auto simp: sentinel_set_def)
  have avN: "set av \<subseteq> N" and usN: "set us \<subseteq> N" using D(3,4) subN(1) by auto
  have hN: "h \<in> N" by (simp add: N_def bs_def)
  have ph: "v_prev H h \<in> N" and nh: "v_next H h \<in> N"
    using linked_closed [OF lu usN sN(3,4)] hus by auto
  have dj': "set (?bu # us @ [?eu]) \<inter> set (?ba # av @ [?ea]) = {}" using D(6) by auto
  have l1: "linked (h_remove h H) ?ba av ?ea" using la lu hus D(6) by (rule linked_remove_other)
  have nba: "v_next (h_remove h H) ?ba \<in> N"
    using linked_closed(1) [OF l1 avN sN(1,2)] by auto
  have "h \<notin> sentinel_set s" using arena_sentinel_fresh [OF D(1)] by (auto simp: bs_def)
  then have hba: "h \<noteq> ?ba" by (auto simp: sentinel_set_def)
  have below: "el_block_below s h = Some bf"
    unfolding bf_def using wf by (rule wf0_block_below)
  obtain m' where R': "same_on N F m' (h_release ?ba h H)"
    and res: "el_free (h + 32) s =
       el_merge_block_with_above h
         (s\<lparr>avail := (avail s)\<lparr>length' := length' (avail s) + 1,
                  bytes := bytes (avail s) + (40 + v_size H h)\<rparr>,
             used := (used s)\<lparr>length' := length' (used s) - 1,
                  bytes := bytes (used s) - (40 + v_size H h)\<rparr>, mem := m'\<rparr>) \<bind>
       (\<lambda>s4. if bf \<noteq> NULL then el_merge_block_with_above bf s4 else Some s4)"
    using el_free_view [OF g R hN S(2) below ph nh sN(1) nba hba] by blast
  define s3 where "s3 = s\<lparr>avail := (avail s)\<lparr>length' := length' (avail s) + 1,
                  bytes := bytes (avail s) + (40 + v_size H h)\<rparr>,
             used := (used s)\<lparr>length' := length' (used s) - 1,
                  bytes := bytes (used s) - (40 + v_size H h)\<rparr>, mem := m'\<rparr>"
  have sc: "same_ctl s s3" by (simp add: same_ctl_def s3_def)
  have ms: "mem s3 = m'" by (simp add: s3_def)
  let ?H = "h_release ?ba h H"
  have dA: "distinct (map fst bs)" using chain_addrs_distinct [OF ch] .
  have t': "tagged ?H bs'"
    unfolding bs'_def using h_release_tagged [OF tg [unfolded bs_def] dA [unfolded bs_def]] .
  have l': "linked ?H ?ba (h # av) ?ea" "linked ?H ?bu (remove1 h us) ?eu"
    using h_release_linked [OF la lu D(6) hus] .
  have hk: "heap_ok ?H s bs' (h # av) (remove1 h us)" using t' l' by (simp add: heap_ok_def)
  have "heap_ok (view_of m') s bs' (h # av) (remove1 h us)"
  proof (rule heap_ok_transfer [OF R' hk])
    show "block_addrs bs' \<subseteq> N" "sentinel_set s \<subseteq> N" "block_foots bs' \<subseteq> F"
      by (auto simp: N_def F_def bs_def bs'_def)
    show "set (h # av) \<subseteq> N" using hN avN by auto
    show "set (remove1 h us) \<subseteq> N" using usN set_remove1_subset [of h us] by auto
  qed
  then have h': "heap_ok (view_of (mem s3)) s3 bs' (h # av) (remove1 h us)"
    using same_ctl_heap [OF sc] ms by simp
  have dus: "distinct us" using lu by (simp add: linked_def)
  have npp: "h \<notin> flagged False pre" "h \<notin> flagged False post"
    "h \<notin> flagged True pre" "h \<notin> flagged True post"
    using dA flagged_sub [of False pre] flagged_sub [of False post]
      flagged_sub [of True pre] flagged_sub [of True post]
    by (auto simp: bs_def block_addrs_def)
  have len: "0 < length us" using hus by (cases us) auto
  have c': "counts_ok s3 bs' (h # av) (remove1 h us)"
    using D(8) dus hus npp len
    by (auto simp: counts_ok_def s3_def bs_def bs'_def S length_remove1 of_nat_length_pred)
  have w: "wf0 s3 bs' (h # av) (remove1 h us)"
    using a' same_ctl_arena [OF sc] h' c' by (simp add: wf0_def)
  have st: "\<forall>z. z \<noteq> h \<longrightarrow> z \<in> fst ` set pre \<union> fst ` set post \<longrightarrow> mem s3 (z + 8) = mem s (z + 8)"
  proof (intro allI impI)
    fix z assume "z \<noteq> h" and "z \<in> fst ` set pre \<union> fst ` set post"
    then have "z \<in> N" by (auto simp: N_def bs_def block_addrs_def)
    then show "mem s3 (z + 8) = mem s (z + 8)"
      using same_onD(2) [OF R'] \<open>z \<noteq> h\<close> by (simp add: ms h_release_fields H_def view_of_def)
  qed
  have bfn: "bf \<noteq> NULL \<longleftrightarrow> pre \<noteq> []"
  proof (cases pre rule: rev_cases)
    case Nil
    then show ?thesis by (simp add: bf_def)
  next
    case (snoc pre' w)
    then have "fst w \<in> block_addrs bs" by (simp add: bs_def block_addrs_def)
    then have "fst w \<noteq> 0" using geo_nodeD(1) [OF D(2), of "fst w"] by simp
    then show ?thesis using snoc by (simp add: bf_def NULL_def)
  qed
  have "el_free (h + 32) s = el_merge_block_with_above h s3 \<bind>
       (\<lambda>s4. if pre \<noteq> [] then el_merge_block_with_above (fst (last pre)) s4 else Some s4)"
    unfolding res s3_def [symmetric] bfn by (cases "pre = []") (simp_all add: bf_def)
  then show ?thesis using sc w st unfolding bs'_def by blast
qed

lemma coalesced_split:
  "coalesced (xs @ y # ys) \<longleftrightarrow> coalesced (xs @ [y]) \<and> coalesced (y # ys)"
proof (induction xs rule: coalesced.induct)
  case (1 b sz f b' sz' f' r)
  then show ?case by simp
next
  case (2 v)
  obtain b sz f where v: "v = (b, sz, f)" by (cases v)
  obtain b' sz' f' where y: "y = (b', sz', f')" by (cases y)
  show ?case by (simp add: v y)
next
  case 3
  then show ?case by simp
qed

lemma coalesced_tail: "coalesced (x # xs) \<Longrightarrow> coalesced xs"
  by (cases x; cases xs) auto

lemma coalesced_Cons_False:
  "coalesced ((b, sz, False) # xs) \<longleftrightarrow> coalesced xs"
  by (cases xs) auto

lemma coalesced_snoc_False:
  "coalesced (xs @ [(b, sz, False)]) \<longleftrightarrow> coalesced xs"
proof (induction xs rule: coalesced.induct)
  case (1 b sz f b' sz' f' r)
  then show ?case by simp
next
  case (2 v)
  then show ?case by (cases v) simp
next
  case 3
  then show ?case by simp
qed

lemma coalesced_snoc_cong:
  "coalesced (xs @ [(b, sz, f)]) \<Longrightarrow> coalesced (xs @ [(b', sz', f)])"
proof (induction xs rule: coalesced.induct)
  case (1 b sz f b' sz' f' r)
  then show ?case by simp
next
  case (2 v)
  then show ?case by (cases v) simp
next
  case 3
  then show ?case by simp
qed

lemma wf0_merge_up:
  assumes wf: "wf0 s (pre @ (h, S, True) # post) av us" and co: "coalesced post"
  shows "\<exists>s' S' post' av'. el_merge_block_with_above h s = Some s' \<and> same_ctl s s' \<and>
     wf0 s' (pre @ (h, S', True) # post') av' us \<and> mem s' (h + 8) = mem s (h + 8) \<and>
     coalesced ((h, S', True) # post') \<and> flagged False post' = flagged False post"
proof (cases post)
  case Nil
  have "el_merge_block_with_above h s = Some s"
    using wf unfolding Nil by (rule wf0_merge_last)
  moreover have "same_ctl s s" by (simp add: same_ctl_def)
  ultimately show ?thesis using wf Nil by (intro exI [of _ s] exI [of _ S] exI [of _ "[]"] exI [of _ av]) simp
next
  case (Cons a post2)
  obtain ab sa fa where a: "a = (ab, sa, fa)" by (cases a)
  show ?thesis
  proof (cases fa)
    case True
    have wf': "wf0 s (pre @ (h, S, True) # (ab, sa, True) # post2) av us"
      using wf Cons a True by simp
    obtain s' where r: "el_merge_block_with_above h s = Some s'" "same_ctl s s'"
      "wf0 s' (pre @ (h, S + sa + 40, True) # post2) (h # remove1 h (remove1 ab av)) us"
      "\<forall>z\<in>fst ` set pre \<union> {h, ab} \<union> fst ` set post2. mem s' (z + 8) = mem s (z + 8)"
      using wf0_merge_do [OF wf'] by blast
    have "coalesced ((h, S + sa + 40, True) # post2)"
      using co Cons a True by (cases post2) auto
    then show ?thesis using r Cons a True
      by (intro exI [of _ s'] exI [of _ "S + sa + 40"] exI [of _ post2]
          exI [of _ "h # remove1 h (remove1 ab av)"]) simp
  next
    case False
    have "el_merge_block_with_above h s = Some s"
      using wf0_merge_skip [of s pre h S True ab sa fa post2 av us] wf Cons a False by simp
    moreover have "same_ctl s s" by (simp add: same_ctl_def)
    moreover have "coalesced ((h, S, True) # post)" using co by (simp add: Cons a False)
    ultimately show ?thesis using wf
      by (intro exI [of _ s] exI [of _ S] exI [of _ post] exI [of _ av]) simp
  qed
qed

lemma wf0_merge_down:
  assumes wf: "wf0 s (pre @ (h, S, True) # post) av us"
    and co: "coalesced pre" and co2: "coalesced ((h, S, True) # post)"
  shows "\<exists>s' bs' av'.
     (if pre \<noteq> [] then el_merge_block_with_above (fst (last pre)) s else Some s) = Some s' \<and>
     same_ctl s s' \<and> wf0 s' bs' av' us \<and> mem s' (h + 8) = mem s (h + 8) \<and>
     coalesced bs' \<and> flagged False bs' = flagged False (pre @ post)"
proof (cases pre rule: rev_cases)
  case Nil
  have "same_ctl s s" by (simp add: same_ctl_def)
  then show ?thesis using wf co2 Nil
    by (intro exI [of _ s] exI [of _ "(h, S, True) # post"] exI [of _ av]) simp
next
  case (snoc pre2 a)
  obtain w sw fw where a: "a = (w, sw, fw)" by (cases a)
  show ?thesis
  proof (cases fw)
    case True
    have wf': "wf0 s (pre2 @ (w, sw, True) # (h, S, True) # post) av us"
      using wf by (simp add: snoc a True)
    obtain s' where r: "el_merge_block_with_above w s = Some s'" "same_ctl s s'"
      "wf0 s' (pre2 @ (w, sw + S + 40, True) # post) (w # remove1 w (remove1 h av)) us"
      "\<forall>z\<in>fst ` set pre2 \<union> {w, h} \<union> fst ` set post. mem s' (z + 8) = mem s (z + 8)"
      using wf0_merge_do [OF wf'] by blast
    have c1: "coalesced (pre2 @ [(w, sw + S + 40, True)])"
      using co coalesced_snoc_cong [of pre2 w sw True w "sw + S + 40"]
      by (simp add: snoc a True)
    have c2: "coalesced ((w, sw + S + 40, True) # post)"
      using co2 by (cases post) auto
    have c: "coalesced (pre2 @ (w, sw + S + 40, True) # post)"
      using c1 c2 coalesced_split [of pre2 "(w, sw + S + 40, True)" post] by simp
    show ?thesis using r c snoc a True
      by (intro exI [of _ s'] exI [of _ "pre2 @ (w, sw + S + 40, True) # post"]
          exI [of _ "w # remove1 w (remove1 h av)"]) simp
  next
    case False
    have wf': "wf0 s (pre2 @ (w, sw, False) # (h, S, True) # post) av us"
      using wf by (simp add: snoc a False)
    have m: "el_merge_block_with_above w s = Some s"
      using wf' by (rule wf0_merge_skip) simp
    have "coalesced (pre2 @ [(w, sw, False)])" using co by (simp add: snoc a False)
    moreover have "coalesced ((w, sw, False) # (h, S, True) # post)" using co2 by simp
    ultimately have c: "coalesced (pre @ (h, S, True) # post)"
      using coalesced_split [of pre2 "(w, sw, False)" "(h, S, True) # post"]
      by (simp add: snoc a False)
    have "same_ctl s s" by (simp add: same_ctl_def)
    then show ?thesis using wf c m snoc a False
      by (intro exI [of _ s] exI [of _ "pre @ (h, S, True) # post"] exI [of _ av]) simp
  qed
qed

lemma el_init_blocklist_view:
  assumes g: "geo N F" and R: "same_on N F (mem s) H" and b: "b \<in> N" and e: "e \<in> N"
  shows "\<exists>m'. el_init_blocklist r b e s =
      Some (put_list r ((get_list r s)\<lparr>beg := b, end' := e, length' := 0, bytes := 0\<rparr>)
              (s\<lparr>mem := m'\<rparr>)) \<and>
    same_on N F m' (H\<lparr>v_state := (v_state H)(b := EL_BEGIN_BLOCK, e := EL_END_BLOCK),
       v_size := (v_size H)(b := EL_UNINITIALIZED, e := EL_UNINITIALIZED),
       v_next := (v_next H)(b := e, e := NULL), v_prev := (v_prev H)(b := NULL, e := b)\<rparr>)"
proof -
  have b0: "b \<noteq> 0" and e0: "e \<noteq> 0" using geo_nodeD(1) [OF g] b e by auto
  define m' where "m' = store64 (store64 (store64 (store64 (store64 ((store64
      ((mem s)(b + 8 := EL_BEGIN_BLOCK)) b EL_UNINITIALIZED)(e + 8 := EL_END_BLOCK))
      e EL_UNINITIALIZED) (b + 16) e) (b + 24) NULL) (e + 16) NULL) (e + 24) b"
  have res: "el_init_blocklist r b e s =
      Some (put_list r ((get_list r s)\<lparr>beg := b, end' := e, length' := 0, bytes := 0\<rparr>)
              (s\<lparr>mem := m'\<rparr>))"
    using b0 e0 unfolding m'_def
    by (cases r) (simp_all add: el_init_blocklist_def el_fields Let_def NULL_def
        off_size_def off_state_def off_next_def off_prev_def)
  have "same_on N F m'
     (H\<lparr>v_state := (v_state H)(b := EL_BEGIN_BLOCK),
        v_size := (v_size H)(b := EL_UNINITIALIZED),
        v_state := ((v_state H)(b := EL_BEGIN_BLOCK))(e := EL_END_BLOCK),
        v_size := ((v_size H)(b := EL_UNINITIALIZED))(e := EL_UNINITIALIZED),
        v_next := (v_next H)(b := e),
        v_prev := (v_prev H)(b := NULL),
        v_next := ((v_next H)(b := e))(e := NULL),
        v_prev := ((v_prev H)(b := NULL))(e := b)\<rparr>)"
    unfolding m'_def
    using same_on_set_prev [OF g same_on_set_next [OF g same_on_set_prev [OF g
          same_on_set_next [OF g same_on_set_size [OF g same_on_set_state [OF g
          same_on_set_size [OF g same_on_set_state [OF g R b, of EL_BEGIN_BLOCK] b,
            of EL_UNINITIALIZED] e, of EL_END_BLOCK] e, of EL_UNINITIALIZED] b, of e] b,
            of NULL] e, of NULL] e, of b]
    by simp
  then show ?thesis using res by auto
qed

lemma same_ctl_trans: "same_ctl s s' \<Longrightarrow> same_ctl s' s'' \<Longrightarrow> same_ctl s s''"
  by (simp add: same_ctl_def)

lemma wf0_state:
  assumes "wf0 s bs av us" "(b, sz, f) \<in> set bs"
  shows "mem s (b + 8) = tag f" "load64 (mem s) b = sz"
proof -
  have "tagged (view_of (mem s)) bs" using assms(1) by (simp add: wf0_def heap_ok_def)
  from taggedD [OF this assms(2)] show "mem s (b + 8) = tag f" "load64 (mem s) b = sz"
    by (simp_all add: view_of_def)
qed

lemma wf0_free:
  assumes wf: "wf0 s (pre @ (h, S, False) # post) av us"
    and co: "coalesced (pre @ (h, S, False) # post)"
  shows "\<exists>s' bs' av' us'. el_free (h + 32) s = Some s' \<and> same_ctl s s' \<and>
     wf0 s' bs' av' us' \<and> coalesced bs' \<and> flagged False bs' = flagged False (pre @ post) \<and>
     mem s' (h + 8) = EL_AVAILABLE"
proof -
  have cpre: "coalesced pre" and cpost: "coalesced post"
    using co coalesced_split [of pre "(h, S, False)" post]
    by (simp_all add: coalesced_snoc_False coalesced_Cons_False)
  obtain s3 where sc3: "same_ctl s s3"
    and w3: "wf0 s3 (pre @ (h, S, True) # post) (h # av) (remove1 h us)"
    and fr: "el_free (h + 32) s = el_merge_block_with_above h s3 \<bind>
       (\<lambda>s4. if pre \<noteq> [] then el_merge_block_with_above (fst (last pre)) s4 else Some s4)"
    using wf0_release [OF wf] by blast
  have st3: "mem s3 (h + 8) = EL_AVAILABLE" using wf0_state(1) [OF w3, of h S True] by simp
  obtain s4 S' post' av4 where m4: "el_merge_block_with_above h s3 = Some s4"
    and sc4: "same_ctl s3 s4"
    and w4: "wf0 s4 (pre @ (h, S', True) # post') av4 (remove1 h us)"
    and st4: "mem s4 (h + 8) = mem s3 (h + 8)"
    and co4: "coalesced ((h, S', True) # post')"
    and fl4: "flagged False post' = flagged False post"
    using wf0_merge_up [OF w3 cpost] by blast
  obtain s' bs' av' where m5:
      "(if pre \<noteq> [] then el_merge_block_with_above (fst (last pre)) s4 else Some s4) = Some s'"
    and sc5: "same_ctl s4 s'" and w5: "wf0 s' bs' av' (remove1 h us)"
    and st5: "mem s' (h + 8) = mem s4 (h + 8)" and co5: "coalesced bs'"
    and fl5: "flagged False bs' = flagged False (pre @ post')"
    using wf0_merge_down [OF w4 cpre co4] by blast
  have "el_free (h + 32) s = Some s'" using fr m4 m5 by simp
  moreover have "same_ctl s s'" using sc3 sc4 sc5 by (blast intro: same_ctl_trans)
  moreover have "flagged False bs' = flagged False (pre @ post)" using fl5 fl4 by simp
  moreover have "mem s' (h + 8) = EL_AVAILABLE" using st5 st4 st3 by simp
  ultimately show ?thesis using w5 co5 by blast
qed

lemma el_init_wf0:
  assumes gg: "good_globals g"
  shows "\<exists>s. el_init g m = Some (Inr s) \<and>
     wf0 s [(EL_HEAP_START_ADDRESS, EL_HEAP_INITIAL_SIZE - EL_BLOCK_OVERHEAD, True)]
       [EL_HEAP_START_ADDRESS] [] \<and>
     heap_start s = EL_HEAP_START_ADDRESS \<and> heap_bytes s = EL_HEAP_INITIAL_SIZE"
proof -
  define ba ea bu eu where "ba = avail_beg_actual g" and "ea = avail_end_actual g"
    and "bu = used_beg_actual g" and "eu = used_end_actual g"
  define hs :: addr where "hs = 0x600000000000"
  define N where "N = {hs, ba, ea, bu, eu}"
  define F :: "addr set" where "F = {hs + 4088}"
  define s0 where "s0 = \<lparr>heap_start = hs, heap_end = hs + 4096, heap_bytes = 4096,
     avail = \<lparr>beg = NULL, end' = NULL, length' = 0, bytes = 0\<rparr>,
     used = \<lparr>beg = NULL, end' = NULL, length' = 0, bytes = 0\<rparr>, mem = m\<rparr>"
  define sg where "sg = s0\<lparr>avail := \<lparr>beg = ba, end' = ea, length' = 0, bytes = 0\<rparr>,
     used := \<lparr>beg = bu, end' = eu, length' = 0, bytes = 0\<rparr>\<rparr>"
  define bs :: "blk list" where "bs = [(hs, 4056, True)]"
  have uhs: "unat hs = 0x600000000000" by (simp add: hs_def)
  have so: "sentinels_ok sg"
    using gg unfolding good_globals_def sentinels_ok_def sentinel_set_def Let_def
    by (simp add: sg_def s0_def ba_def ea_def bu_def eu_def EL_HEAP_START_ADDRESS_def
        EL_HEAP_INITIAL_SIZE_def hs_def)
  have ch: "chain (unat (heap_start sg)) bs (unat (heap_end sg))"
    by (simp add: sg_def s0_def bs_def hs_def)
  have ao: "arena_ok sg bs" using so ch by (simp add: arena_ok_def) (simp add: sg_def s0_def hs_def)
  have g: "geo N F"
    using arena_geo [OF ch so]
    by (simp add: N_def F_def bs_def sg_def s0_def sentinel_set_def hs_def insert_commute)
  have ds: "distinct [ba, ea, bu, eu]"
    using so by (simp add: sentinels_ok_def sg_def s0_def)
  have fresh: "hs \<notin> sentinel_set sg" using arena_sentinel_fresh [OF ao] by (auto simp: bs_def)
  have ne: "hs \<noteq> ba" "hs \<noteq> ea" "hs \<noteq> bu" "hs \<noteq> eu"
    "ba \<noteq> ea" "ba \<noteq> bu" "ba \<noteq> eu" "ea \<noteq> bu" "ea \<noteq> eu" "bu \<noteq> eu"
    using ds fresh by (auto simp: sentinel_set_def sg_def s0_def)
  have mem: "hs \<in> N" "ba \<in> N" "ea \<in> N" "bu \<in> N" "eu \<in> N" "hs + 4088 \<in> F"
    by (simp_all add: N_def F_def)
  define H0 where "H0 = view_of m"
  have R0: "same_on N F (mem s0) H0" unfolding H0_def s0_def by (simp add: same_on_view_of)
  obtain m1 where c1: "el_init_blocklist AVAIL ba ea s0 =
      Some (put_list AVAIL ((get_list AVAIL s0)\<lparr>beg := ba, end' := ea, length' := 0, bytes := 0\<rparr>)
              (s0\<lparr>mem := m1\<rparr>))"
    and R1: "same_on N F m1 (H0\<lparr>v_state := (v_state H0)(ba := EL_BEGIN_BLOCK, ea := EL_END_BLOCK),
       v_size := (v_size H0)(ba := EL_UNINITIALIZED, ea := EL_UNINITIALIZED),
       v_next := (v_next H0)(ba := ea, ea := NULL), v_prev := (v_prev H0)(ba := NULL, ea := ba)\<rparr>)"
    using el_init_blocklist_view [OF g R0 mem(2,3)] by blast
  define s1 where "s1 = put_list AVAIL ((get_list AVAIL s0)\<lparr>beg := ba, end' := ea, length' := 0, bytes := 0\<rparr>)
              (s0\<lparr>mem := m1\<rparr>)"
  define H1 where "H1 = H0\<lparr>v_state := (v_state H0)(ba := EL_BEGIN_BLOCK, ea := EL_END_BLOCK),
       v_size := (v_size H0)(ba := EL_UNINITIALIZED, ea := EL_UNINITIALIZED),
       v_next := (v_next H0)(ba := ea, ea := NULL), v_prev := (v_prev H0)(ba := NULL, ea := ba)\<rparr>"
  have R1': "same_on N F (mem s1) H1" using R1 by (simp add: s1_def H1_def)
  obtain m2 where c2: "el_init_blocklist USED bu eu s1 =
      Some (put_list USED ((get_list USED s1)\<lparr>beg := bu, end' := eu, length' := 0, bytes := 0\<rparr>)
              (s1\<lparr>mem := m2\<rparr>))"
    and R2: "same_on N F m2 (H1\<lparr>v_state := (v_state H1)(bu := EL_BEGIN_BLOCK, eu := EL_END_BLOCK),
       v_size := (v_size H1)(bu := EL_UNINITIALIZED, eu := EL_UNINITIALIZED),
       v_next := (v_next H1)(bu := eu, eu := NULL), v_prev := (v_prev H1)(bu := NULL, eu := bu)\<rparr>)"
    using el_init_blocklist_view [OF g R1' mem(4,5)] by blast
  define s2 where "s2 = put_list USED ((get_list USED s1)\<lparr>beg := bu, end' := eu, length' := 0, bytes := 0\<rparr>)
              (s1\<lparr>mem := m2\<rparr>)"
  define H2 where "H2 = H1\<lparr>v_state := (v_state H1)(bu := EL_BEGIN_BLOCK, eu := EL_END_BLOCK),
       v_size := (v_size H1)(bu := EL_UNINITIALIZED, eu := EL_UNINITIALIZED),
       v_next := (v_next H1)(bu := eu, eu := NULL), v_prev := (v_prev H1)(bu := NULL, eu := bu)\<rparr>"
  have R2': "same_on N F (mem s2) H2" using R2 by (simp add: s2_def H2_def)
  have hs0: "hs \<noteq> 0" and f0: "hs + 4088 \<noteq> 0"
    using geo_nodeD(1) [OF g mem(1)] geo_footD(1) [OF g mem(6)] by auto
  define m3 where "m3 = store64 ((store64 (mem s2) hs 4056)(hs + 8 := EL_AVAILABLE)) (hs + 4088) 4056"
  define H3 where "H3 = H2\<lparr>v_size := (v_size H2)(hs := 4056),
      v_state := (v_state H2)(hs := EL_AVAILABLE), v_foot := (v_foot H2)(hs + 4088 := 4056)\<rparr>"
  define s3 where "s3 = s2\<lparr>mem := m3\<rparr>"
  have R3: "same_on N F (mem s3) H3"
    using same_on_set_foot [OF g same_on_set_state [OF g same_on_set_size [OF g R2' mem(1),
          of 4056] mem(1), of EL_AVAILABLE] mem(6), of 4056]
    by (simp add: s3_def m3_def H3_def)
  have b3: "beg (get_list AVAIL s3) \<in> N" "v_next H3 (beg (get_list AVAIL s3)) \<in> N"
    "hs \<noteq> beg (get_list AVAIL s3)"
    using mem ne by (simp_all add: s3_def s2_def s1_def s0_def H3_def H2_def H1_def)
  obtain m4 where c4: "el_add_block_front AVAIL hs s3 =
      Some (put_list AVAIL ((get_list AVAIL s3)\<lparr>length' := length' (get_list AVAIL s3) + 1,
            bytes := bytes (get_list AVAIL s3) + (40 + v_size H3 hs)\<rparr>) (s3\<lparr>mem := m4\<rparr>))"
    and R4: "same_on N F m4 (h_add_front (beg (get_list AVAIL s3)) hs H3)"
    using el_add_block_front_h [OF g R3 mem(1) b3] by blast
  define s4 where "s4 = put_list AVAIL ((get_list AVAIL s3)\<lparr>length' := length' (get_list AVAIL s3) + 1,
            bytes := bytes (get_list AVAIL s3) + (40 + v_size H3 hs)\<rparr>) (s3\<lparr>mem := m4\<rparr>)"
  define H4 where "H4 = h_add_front ba hs H3"
  have R4': "same_on N F (mem s4) H4"
    using R4 by (simp add: s4_def H4_def s3_def s2_def s1_def s0_def)
  have d1: "el_init_blocklist AVAIL ba ea s0 = Some s1" unfolding s1_def by (rule c1)
  have d2: "el_init_blocklist USED bu eu s1 = Some s2" unfolding s2_def by (rule c2)
  have d4: "el_add_block_front AVAIL hs s3 = Some s4" unfolding s4_def by (rule c4)
  have hb: "heap_bytes s2 = 4096" "heap_start s2 = hs" by (simp_all add: s2_def s1_def s0_def)
  have ld: "load64 ((store64 (mem s2) hs 4056)(hs + 8 := EL_AVAILABLE)) hs = 4056"
    by (simp add: load64_upd_outside)
  have init: "el_init g m = Some (Inr s4)"
    using hs0 f0
    by (simp add: el_init_def Let_def s0_def [symmetric] ba_def [symmetric] ea_def [symmetric]
        bu_def [symmetric] eu_def [symmetric] EL_HEAP_START_ADDRESS_def EL_HEAP_INITIAL_SIZE_def
        hs_def [symmetric] EL_BLOCK_OVERHEAD_def sizeof_blockhead_def sizeof_blockfoot_def NULL_def
        d1 [unfolded s0_def NULL_def] d2 hb set_size_def set_state_def set_foot_size_def el_get_footer_def get_size_def
        off_size_def off_state_def ld s3_def [symmetric, unfolded m3_def] d4)
  have f4: "heap_start s4 = hs" "heap_end s4 = hs + 4096" "heap_bytes s4 = 4096"
    "avail s4 = \<lparr>beg = ba, end' = ea, length' = 1, bytes = 4096\<rparr>"
    "used s4 = \<lparr>beg = bu, end' = eu, length' = 0, bytes = 0\<rparr>"
    using ne by (simp_all add: s4_def s3_def s2_def s1_def s0_def H3_def)
  have a4: "arena_ok s4 bs"
    using ao by (simp add: arena_ok_def sentinels_ok_def sentinel_set_def f4 sg_def s0_def)
  have vH3: "v_next H3 ba = ea" "v_prev H3 ea = ba" "v_next H3 bu = eu" "v_prev H3 eu = bu"
    "v_size H3 hs = 4056" "v_foot H3 (hs + 4088) = 4056" "v_state H3 hs = EL_AVAILABLE"
    using ne by (simp_all add: H3_def H2_def H1_def)
  have l3: "linked H3 ba [] ea" using vH3 ne by (simp add: linked_def)
  have la: "linked H4 ba [hs] ea" unfolding H4_def using l3 ne by (intro linked_add_front) auto
  have lu: "linked H4 bu [] eu"
    using vH3 ne by (simp add: linked_def H4_def h_add_front_def)
  have tg: "tagged H4 bs"
    using vH3 by (simp add: tagged_def bs_def H4_def tag_def)
  have hk: "heap_ok H4 s4 bs [hs] []" using tg la lu by (simp add: heap_ok_def f4)
  have "heap_ok (view_of (mem s4)) s4 bs [hs] []"
  proof (rule heap_ok_transfer [OF R4' hk])
    show "block_addrs bs \<subseteq> N" "sentinel_set s4 \<subseteq> N" "block_foots bs \<subseteq> F"
      "set [hs] \<subseteq> N" "set [] \<subseteq> N"
      by (simp_all add: N_def F_def bs_def sentinel_set_def f4)
  qed
  moreover have "counts_ok s4 bs [hs] []"
    by (simp add: counts_ok_def f4 bs_def)
  ultimately have "wf0 s4 bs [hs] []" using a4 by (simp add: wf0_def)
  then show ?thesis using init f4
    by (simp add: bs_def hs_def EL_HEAP_START_ADDRESS_def EL_HEAP_INITIAL_SIZE_def
        EL_BLOCK_OVERHEAD_def sizeof_blockhead_def sizeof_blockfoot_def)
qed

section \<open>Every reachable state satisfies the invariant\<close>

lemma chain_length: "chain a bs e \<Longrightarrow> a + 40 * length bs \<le> e"
  by (induction a bs e rule: chain.induct) auto

lemma wf0_length:
  assumes "wf0 s bs av us"
  shows "length av < 2 ^ 64" "length us < 2 ^ 64"
proof -
  note D = wf0D [OF assms]
  have ch: "chain (unat (heap_start s)) bs (unat (heap_end s))"
    using D(1) by (simp add: arena_ok_def)
  have "unat (heap_end s) < 2 ^ 64"
    using unsigned_less [of "heap_end s", where ?'a = nat] by simp
  then have lb: "length bs < 2 ^ 64" using chain_length [OF ch] by simp
  have da: "distinct av" and du: "distinct us"
    using D(7) by (simp_all add: heap_ok_def linked_def)
  have "card (block_addrs bs) \<le> length bs"
    unfolding block_addrs_def using card_image_le [of "set bs" fst] card_length [of bs] by simp
  moreover have "card (set av) \<le> card (block_addrs bs)" "card (set us) \<le> card (block_addrs bs)"
    using D(3,4) by (simp_all add: card_mono block_addrs_def)
  ultimately show "length av < 2 ^ 64" "length us < 2 ^ 64"
    using lb distinct_card [OF da] distinct_card [OF du] by simp_all
qed

lemma view_of_fields:
  "v_next (view_of (mem s)) = next_of s" "v_prev (view_of (mem s)) = prev_of s"
  "v_size (view_of (mem s)) = size_of s"
  by (simp_all add: fun_eq_iff view_of_def next_of_def prev_of_def size_of_def
      off_next_def off_prev_def off_size_def)

lemma wf0_find:
  assumes wf: "wf0 s bs av us"
  shows "el_find_first_avail s n =
     Some (case wrapped_fit (size_of s) av n of Some b \<Rightarrow> b | None \<Rightarrow> NULL)"
proof -
  note D = wf0D [OF wf]
  have l: "linked (view_of (mem s)) (beg (avail s)) av (end' (avail s))"
    using D(7) by (simp add: heap_ok_def)
  have d: "dll (next_of s) (prev_of s) (beg (avail s)) av (end' (avail s))"
    using l by (simp add: linked_def view_of_fields)
  have b: "beg (avail s) \<noteq> NULL"
    using geo_nodeD(1) [OF D(2), of "beg (avail s)"] by (simp add: sentinel_set_def NULL_def)
  have nn: "NULL \<notin> set av"
    using geo_nodeD(1) [OF D(2), of NULL] D(3) by (auto simp: NULL_def)
  have "unat (length' (avail s)) = length av"
    using D(8) wf0_length(1) [OF wf] by (simp add: counts_ok_def unat_of_nat)
  moreover have "get_next s (beg (avail s)) = Some (hd (av @ [end' (avail s)]))"
    using dll_next_first [OF d] b by (simp add: get_next_def next_of_def)
  ultimately show ?thesis
    using find_loop_scan [OF d nn] by (simp add: el_find_first_avail_def)
qed

lemma coalesced_butlast: "coalesced (xs @ [y]) \<Longrightarrow> coalesced xs"
proof (induction xs rule: coalesced.induct)
  case (1 b sz f b' sz' f' r)
  then show ?case by simp
next
  case (2 v)
  then show ?case by simp
next
  case 3
  then show ?case by simp
qed

lemma coalesced_head_cong:
  "coalesced ((b, sz, f) # xs) \<Longrightarrow> coalesced ((b', sz', f) # xs)"
  by (cases xs) auto

lemma flagged_False_fresh:
  assumes "chain a (pre @ (x, S, f) # post) e"
  shows "x \<notin> flagged g (pre @ post)"
proof -
  have "distinct (map fst (pre @ (x, S, f) # post))" using chain_addrs_distinct [OF assms] .
  then show ?thesis using flagged_sub [of g pre] flagged_sub [of g post]
    by (auto simp: block_addrs_def)
qed

lemma wf_malloc:
  assumes wf: "wf0 s bs av us" and co: "coalesced bs" and n: "unat n + 40 < 2 ^ 64"
  shows "\<exists>p s' bs' av' us'. el_malloc n s = Some (p, s') \<and> same_ctl s s' \<and>
     wf0 s' bs' av' us' \<and> coalesced bs' \<and>
     (if p = NULL then s' = s \<and> bs' = bs
      else flagged False bs' = insert (p - 32) (flagged False bs) \<and>
           p - 32 \<notin> flagged False bs \<and> (p - 32, n, False) \<in> set bs')"
proof (cases "wrapped_fit (size_of s) av n")
  case None
  then have "el_find_first_avail s n = Some NULL" using wf0_find [OF wf, of n] by simp
  then have "el_malloc n s = Some (NULL, s)" by (simp add: el_malloc_def)
  moreover have "same_ctl s s" by (simp add: same_ctl_def)
  ultimately show ?thesis using wf co by (intro exI [of _ NULL] exI [of _ s] exI [of _ bs]) auto
next
  case (Some x)
  then have find: "el_find_first_avail s n = Some x" using wf0_find [OF wf, of n] by simp
  have xav: "x \<in> set av" and fitw: "n + EL_BLOCK_OVERHEAD \<le> size_of s x"
    using Some by (auto simp: wrapped_fit_def find_Some_iff)
  note D = wf0D [OF wf]
  have ch: "chain (unat (heap_start s)) bs (unat (heap_end s))"
    using D(1) by (simp add: arena_ok_def)
  obtain S where m: "(x, S, True) \<in> set bs"
    using xav D(8) by (auto simp: counts_ok_def flagged_def)
  have sz: "size_of s x = S" using wf0_state(2) [OF wf m] by (simp add: size_of_def off_size_def)
  obtain pre post where bs: "bs = pre @ (x, S, True) # post" using m by (auto dest: split_list)
  have "unat (n + 40) = unat n + 40" using n by (simp add: unat_word_ariths)
  then have fit: "unat n + 40 \<le> unat S"
    using fitw sz
    by (simp add: word_le_nat_alt EL_BLOCK_OVERHEAD_def sizeof_blockhead_def sizeof_blockfoot_def)
  obtain s' where r: "el_malloc n s = Some (x + 32, s')" "same_ctl s s'"
    "wf0 s' (pre @ (x, n, False) # (x + (n + 40), S - n - 40, True) # post)
        ((x + (n + 40)) # remove1 x av) (x # us)"
    using wf0_malloc [OF wf [unfolded bs] fit find] by blast
  have e: "unat (heap_end s) < 2 ^ 64"
    using unsigned_less [of "heap_end s", where ?'a = nat] by simp
  have "unat x + unat S + 40 \<le> unat (heap_end s)" using chain_bounds [OF ch m] by simp
  then have "unat (x + 32) = unat x + 32" using e by (simp add: unat_word_ariths)
  then have p0: "x + 32 \<noteq> NULL" by (auto simp: NULL_def)
  have c1: "coalesced (pre @ [(x, n, False)])"
    using co coalesced_split [of pre "(x, S, True)" post] coalesced_butlast [of pre "(x, S, True)"]
    by (simp add: bs coalesced_snoc_False)
  have "coalesced ((x, S, True) # post)"
    using co coalesced_split [of pre "(x, S, True)" post] by (simp add: bs)
  then have "coalesced ((x + (n + 40), S - n - 40, True) # post)" by (rule coalesced_head_cong)
  then have c2: "coalesced ((x, n, False) # (x + (n + 40), S - n - 40, True) # post)" by simp
  have co': "coalesced (pre @ (x, n, False) # (x + (n + 40), S - n - 40, True) # post)"
    using c1 c2 coalesced_split [of pre "(x, n, False)" "(x + (n + 40), S - n - 40, True) # post"]
    by simp
  have fresh: "x \<notin> flagged False (pre @ post)" using ch unfolding bs by (rule flagged_False_fresh)
  show ?thesis
    using r co' p0 fresh
    by (intro exI [of _ "x + 32"] exI [of _ s']
        exI [of _ "pre @ (x, n, False) # (x + (n + 40), S - n - 40, True) # post"]
        exI [of _ "(x + (n + 40)) # remove1 x av"] exI [of _ "x # us"])
      (auto simp: bs)
qed

lemma upd_outside_node:
  fixes a z :: addr
  assumes o: "unat a < unat z \<or> unat z + 32 \<le> unat a" and z: "unat z + 32 \<le> 2 ^ 64"
  shows "load64 (m(a := v)) z = load64 m z" "(m(a := v)) (z + 8) = m (z + 8)"
    "load64 (m(a := v)) (z + 16) = load64 m (z + 16)"
    "load64 (m(a := v)) (z + 24) = load64 m (z + 24)"
proof -
  have u8: "unat (z + 8) = unat z + 8" using unat_plus_small [OF z, of 8] by simp
  have u16: "unat (z + 16) = unat z + 16" using unat_plus_small [OF z, of 16] by simp
  have u24: "unat (z + 24) = unat z + 24" using unat_plus_small [OF z, of 24] by simp
  have "8 \<le> a - z" using o z by (intro ge8I) auto
  then show "load64 (m(a := v)) z = load64 m z" by (rule load64_upd_outside)
  have "8 \<le> a - (z + 16)" using o z u16 by (intro ge8I) auto
  then show "load64 (m(a := v)) (z + 16) = load64 m (z + 16)" by (rule load64_upd_outside)
  have "8 \<le> a - (z + 24)" using o z u24 by (intro ge8I) auto
  then show "load64 (m(a := v)) (z + 24) = load64 m (z + 24)" by (rule load64_upd_outside)
  have "a \<noteq> z + 8" using o u8 by auto
  then show "(m(a := v)) (z + 8) = m (z + 8)" by simp
qed

lemma upd_outside_foot:
  fixes a f :: addr
  assumes o: "unat a < unat f \<or> unat f + 8 \<le> unat a" and f: "unat f + 8 \<le> 2 ^ 64"
  shows "load64 (m(a := v)) f = load64 m f"
proof -
  have "8 \<le> a - f" using o f by (intro ge8I) auto
  then show ?thesis by (rule load64_upd_outside)
qed

lemma wf0_payload_write:
  assumes wf: "wf0 s bs av us" and m: "(b, sz, fl) \<in> set bs"
    and a1: "unat b + 32 \<le> unat a" and a2: "unat a < unat b + 32 + unat sz"
  shows "wf0 (s\<lparr>mem := (mem s)(a := v)\<rparr>) bs av us"
proof -
  note D = wf0D [OF wf]
  let ?N = "block_addrs bs \<union> sentinel_set s" and ?F = "block_foots bs"
  let ?s' = "s\<lparr>mem := (mem s)(a := v)\<rparr>"
  have ch: "chain (unat (heap_start s)) bs (unat (heap_end s))" and so: "sentinels_ok s"
    using D(1) by (simp_all add: arena_ok_def)
  have e: "unat (heap_end s) < 2 ^ 64"
    using unsigned_less [of "heap_end s", where ?'a = nat] by simp
  note B = chain_bounds [OF ch] and Dj = chain_disjoint [OF ch] and Fo = chain_footer [OF ch e]
  have bb: "unat (heap_start s) \<le> unat b" "unat b + unat sz + 40 \<le> unat (heap_end s)"
    using B [OF m] by simp_all
  have node: "unat a < unat z \<or> unat z + 32 \<le> unat a" if z: "z \<in> ?N" for z
  proof (cases "z \<in> block_addrs bs")
    case True
    then obtain sz' f' where m': "(z, sz', f') \<in> set bs" by (auto simp: block_addrs_def)
    show ?thesis
    proof (cases "(z, sz', f') = (b, sz, fl)")
      case True
      then show ?thesis using a1 by simp
    next
      case False
      then have "unat b + unat sz + 40 \<le> unat z \<or> unat z + unat sz' + 40 \<le> unat b"
        using Dj [OF m m'] by auto
      then show ?thesis using a1 a2 by auto
    qed
  next
    case False
    then have "z \<in> sentinel_set s" using z by simp
    then have "unat z + 32 \<le> unat (heap_start s) \<or> unat (heap_end s) \<le> unat z"
      using so by (auto simp: sentinels_ok_def)
    then show ?thesis using bb a1 a2 by auto
  qed
  have foot: "unat a < unat f \<or> unat f + 8 \<le> unat a" if f: "f \<in> ?F" for f
  proof -
    obtain b' sz' f' where m': "(b', sz', f') \<in> set bs" and fe: "f = b' + (32 + sz')"
      using f by (auto simp: block_foots_def)
    have uf: "unat f = unat b' + 32 + unat sz'" unfolding fe using m' by (rule Fo)
    show ?thesis
    proof (cases "(b', sz', f') = (b, sz, fl)")
      case True
      then show ?thesis using a2 uf by simp
    next
      case False
      then have "unat b + unat sz + 40 \<le> unat b' \<or> unat b' + unat sz' + 40 \<le> unat b"
        using Dj [OF m m'] by auto
      then show ?thesis using a1 a2 uf by auto
    qed
  qed
  have R: "same_on ?N ?F ((mem s)(a := v)) (view_of (mem s))"
    unfolding same_on_def
  proof (rule conjI; rule ballI)
    fix z assume z: "z \<in> ?N"
    note U = upd_outside_node [OF node [OF z] geo_nodeD(2) [OF D(2) z], of "mem s" v]
    show "load64 ((mem s)(a := v)) z = v_size (view_of (mem s)) z \<and>
       ((mem s)(a := v)) (z + 8) = v_state (view_of (mem s)) z \<and>
       load64 ((mem s)(a := v)) (z + 16) = v_next (view_of (mem s)) z \<and>
       load64 ((mem s)(a := v)) (z + 24) = v_prev (view_of (mem s)) z"
      using U by (simp add: view_of_def)
  next
    fix f assume f: "f \<in> ?F"
    show "load64 ((mem s)(a := v)) f = v_foot (view_of (mem s)) f"
      using upd_outside_foot [OF foot [OF f] geo_footD(2) [OF D(2) f], of "mem s" v]
      by (simp add: view_of_def)
  qed
  have sub: "block_addrs bs \<subseteq> ?N" "sentinel_set s \<subseteq> ?N" "block_foots bs \<subseteq> ?F"
    "set av \<subseteq> ?N" "set us \<subseteq> ?N"
    using D(3,4) by auto
  have "heap_ok (view_of ((mem s)(a := v))) s bs av us"
    using R D(7) sub by (rule heap_ok_transfer)
  then have h: "heap_ok (view_of (mem ?s')) ?s' bs av us" by (simp add: heap_ok_def)
  have ar: "arena_ok ?s' bs"
    using D(1) by (simp add: arena_ok_def sentinels_ok_def sentinel_set_def)
  have c: "counts_ok ?s' bs av us" using D(8) by (simp add: counts_ok_def)
  show ?thesis using ar h c by (simp add: wf0_def)
qed

lemma reach_wf:
  "reach g s L \<Longrightarrow> \<exists>bs av us. wf0 s bs av us \<and> coalesced bs \<and> L = (\<lambda>b. b + 32) ` flagged False bs"
proof (induction rule: reach.induct)
  case (reach_init m s)
  obtain s0 where "el_init g m = Some (Inr s0)"
    "wf0 s0 [(EL_HEAP_START_ADDRESS, EL_HEAP_INITIAL_SIZE - EL_BLOCK_OVERHEAD, True)]
       [EL_HEAP_START_ADDRESS] []"
    using el_init_wf0 [OF reach_init(1), of m] by blast
  then show ?case using reach_init(2)
    by (intro exI [of _ "[(EL_HEAP_START_ADDRESS, EL_HEAP_INITIAL_SIZE - EL_BLOCK_OVERHEAD, True)]"]
        exI [of _ "[EL_HEAP_START_ADDRESS]"] exI [of _ "[]"]) simp
next
  case (reach_malloc s L n p s')
  then obtain bs av us where wf: "wf0 s bs av us" and co: "coalesced bs"
    and L: "L = (\<lambda>b. b + 32) ` flagged False bs" by blast
  have n: "unat n + 40 < 2 ^ 64"
    using reach_malloc(2) by (simp add: EL_BLOCK_OVERHEAD_def sizeof_blockhead_def sizeof_blockfoot_def)
  obtain p0 s0 bs' av' us' where r: "el_malloc n s = Some (p0, s0)" "wf0 s0 bs' av' us'"
    "coalesced bs'"
    "if p0 = NULL then s0 = s \<and> bs' = bs
      else flagged False bs' = insert (p0 - 32) (flagged False bs) \<and>
           p0 - 32 \<notin> flagged False bs \<and> (p0 - 32, n, False) \<in> set bs'"
    using wf_malloc [OF wf co n] by blast
  have eq: "p0 = p" "s0 = s'" using r(1) reach_malloc(3) by simp_all
  have "(if p = NULL then L else insert p L) = (\<lambda>b. b + 32) ` flagged False bs'"
    using r(4) L unfolding eq by (auto split: if_splits)
  then show ?case using r(2,3) eq by blast
next
  case (reach_free s L p s')
  then obtain bs av us where wf: "wf0 s bs av us" and co: "coalesced bs"
    and L: "L = (\<lambda>b. b + 32) ` flagged False bs" by blast
  obtain h S where p: "p = h + 32" and m: "(h, S, False) \<in> set bs"
    using reach_free(2) L by (auto simp: flagged_def)
  obtain pre post where bs: "bs = pre @ (h, S, False) # post" using m by (auto dest: split_list)
  obtain s0 bs' av' us' where r: "el_free (h + 32) s = Some s0" "wf0 s0 bs' av' us'"
    "coalesced bs'" "flagged False bs' = flagged False (pre @ post)"
    using wf0_free [OF wf [unfolded bs] co [unfolded bs]] by blast
  have eq: "s0 = s'" using r(1) reach_free(3) p by simp
  have ch: "chain (unat (heap_start s)) bs (unat (heap_end s))"
    using wf by (simp add: wf0_def arena_ok_def)
  have fresh: "h \<notin> flagged False (pre @ post)" using ch unfolding bs by (rule flagged_False_fresh)
  have "L - {p} = (\<lambda>b. b + 32) ` flagged False bs'"
    using fresh unfolding L p r(4) bs by auto
  then show ?case using r(2,3) eq by blast
next
  case (reach_write s L p sz a v)
  then obtain bs av us where wf: "wf0 s bs av us" and co: "coalesced bs"
    and L: "L = (\<lambda>b. b + 32) ` flagged False bs" by blast
  note D = wf0D [OF wf]
  obtain h S where p: "p = h + 32" and m: "(h, S, False) \<in> set bs"
    using reach_write(2) L by (auto simp: flagged_def)
  have ch: "chain (unat (heap_start s)) bs (unat (heap_end s))"
    using D(1) by (simp add: arena_ok_def)
  have e: "unat (heap_end s) < 2 ^ 64"
    using unsigned_less [of "heap_end s", where ?'a = nat] by simp
  have b: "unat h + unat S + 40 < 2 ^ 64" using chain_bounds [OF ch m] e by simp
  have h0: "h \<noteq> NULL"
    using geo_nodeD(1) [OF D(2), of h] m by (force simp: block_addrs_def NULL_def)
  have "tagged (view_of (mem s)) bs" using D(7) by (simp add: heap_ok_def)
  then have "v_size (view_of (mem s)) h = S" using taggedD [OF _ m] by blast
  then have "get_size s (p - sizeof_blockhead) = Some S"
    using h0 by (simp add: p get_size_def sizeof_blockhead_def off_size_def view_of_def)
  then have sz: "sz = S" using reach_write(3) by simp
  have up: "unat p = unat h + 32" unfolding p using b by (simp add: unat_word_ariths)
  define dd where "dd = a - p"
  have d: "unat dd < unat S" using reach_write(4) sz by (simp add: dd_def)
  have ae: "a = p + dd" by (simp add: dd_def)
  have "unat a = (unat p + unat dd) mod 2 ^ 64" unfolding ae by (simp add: unat_word_ariths)
  then have ua: "unat a = unat h + 32 + unat dd" using up d b by simp
  have "wf0 (s\<lparr>mem := (mem s)(a := v)\<rparr>) bs av us"
    using wf m by (rule wf0_payload_write) (simp_all add: ua d)
  then show ?case using co L by blast
qed

section \<open>Consequences of the invariant\<close>

lemma good_example_globals: "good_globals example_globals"
  by (simp add: good_globals_def example_globals_def Let_def EL_HEAP_START_ADDRESS_def
      EL_HEAP_INITIAL_SIZE_def)

lemma fresh_heap_init: "el_init example_globals zero_memory = Some (Inr fresh_heap)"
  using el_init_wf0 [OF good_example_globals, of zero_memory] by (auto simp: fresh_heap_def)

lemma fresh_heap_reach: "reach example_globals fresh_heap {}"
  using good_example_globals fresh_heap_init by (rule reach_init)

lemma lbytes_total:
  "chain a bs e \<Longrightarrow> lbytes True bs + lbytes False bs = of_nat (e - a)"
proof (induction a bs e rule: chain.induct)
  case (1 a e)
  then show ?case by simp
next
  case (2 a b sz f bs e)
  have ch: "chain (a + unat sz + 40) bs e" using "2.prems" by simp
  have le: "a + unat sz + 40 \<le> e" using chain_le [OF ch] .
  have "lbytes True bs + lbytes False bs = of_nat (e - (a + unat sz + 40))"
    using "2.IH" ch by simp
  moreover have "(of_nat (e - a) :: 64 word) = of_nat (e - (a + unat sz + 40)) + (40 + sz)"
  proof -
    have "e - a = (e - (a + unat sz + 40)) + (40 + unat sz)" using le by simp
    then show ?thesis by (simp only: of_nat_add) simp
  qed
  ultimately show ?case by (cases f) (simp_all add: algebra_simps)
qed

lemma tag_inject: "tag f = tag f' \<Longrightarrow> f = f'"
  by (cases f; cases f') (simp_all add: tag_def EL_AVAILABLE_def EL_USED_def)

lemma chain_tagged_unique:
  "chain a bs e \<Longrightarrow> tagged H bs \<Longrightarrow> chain a bs' e \<Longrightarrow> tagged H bs' \<Longrightarrow> bs = bs'"
proof (induction a bs e arbitrary: bs' rule: chain.induct)
  case (1 a e)
  then show ?case using chain_le by (cases bs') fastforce+
next
  case (2 a b sz f bs e)
  have ch: "chain (a + unat sz + 40) bs e" and b: "unat b = a" using "2.prems"(1) by auto
  have le: "a + unat sz + 40 \<le> e" using chain_le [OF ch] .
  obtain x r where bs': "bs' = x # r" using "2.prems"(3) le by (cases bs') auto
  obtain b' sz' f' where x: "x = (b', sz', f')" by (cases x)
  have ch': "chain (a + unat sz' + 40) r e" and b': "unat b' = a"
    using "2.prems"(3) by (auto simp: bs' x)
  have bb: "b' = b" using b b' by (simp add: word_unat_eq_iff)
  have t1: "v_size H b = sz \<and> v_state H b = tag f" using taggedD [OF "2.prems"(2), of b sz f] by simp
  have t2: "v_size H b = sz' \<and> v_state H b = tag f'"
    using taggedD [OF "2.prems"(4), of b' sz' f'] by (simp add: bs' x bb)
  have eq: "sz' = sz" "f' = f" using t1 t2 tag_inject by auto
  have "tagged H bs" "tagged H r" using "2.prems"(2,4) by (auto simp: tagged_def bs')
  then have "bs = r" using "2.IH" [OF ch _ ch' [unfolded eq]] by simp
  then show ?case by (simp add: bs' x bb eq)
qed

lemma arena_blocks_unique: "arena_blocks s bs \<Longrightarrow> arena_blocks s bs' \<Longrightarrow> bs = bs'"
  unfolding arena_blocks_def using chain_tagged_unique by blast

lemma wf0_arena_blocks: "wf0 s bs av us \<Longrightarrow> arena_blocks s bs"
  by (simp add: wf0_def arena_ok_def heap_ok_def arena_blocks_def)

lemma el_free_available:
  "get_state s (p - sizeof_blockhead) = Some EL_AVAILABLE \<Longrightarrow> el_free p s = Some s"
  by (simp add: el_free_def)

lemma reach_free_result:
  assumes r: "reach g s L" and p: "p \<in> L"
  shows "\<exists>s' bs av us. el_free p s = Some s' \<and> wf0 s' bs av us \<and> coalesced bs \<and>
     get_state s' (p - sizeof_blockhead) = Some EL_AVAILABLE \<and> reach g s' (L - {p})"
proof -
  obtain bs av us where wf: "wf0 s bs av us" and co: "coalesced bs"
    and L: "L = (\<lambda>b. b + 32) ` flagged False bs" using reach_wf [OF r] by blast
  obtain h S where ph: "p = h + 32" and m: "(h, S, False) \<in> set bs"
    using p L by (auto simp: flagged_def)
  obtain pre post where bs: "bs = pre @ (h, S, False) # post" using m by (auto dest: split_list)
  obtain s' bs' av' us' where f: "el_free (h + 32) s = Some s'" "wf0 s' bs' av' us'"
    "coalesced bs'" "mem s' (h + 8) = EL_AVAILABLE"
    using wf0_free [OF wf [unfolded bs] co [unfolded bs]] by blast
  have "h \<in> block_addrs bs \<union> sentinel_set s" by (simp add: bs)
  then have h0: "h \<noteq> 0" using geo_nodeD(1) [OF wf0D(2) [OF wf]] by blast
  have gs: "get_state s' (p - sizeof_blockhead) = Some EL_AVAILABLE"
    using f(4) h0 by (simp add: ph get_state_def sizeof_blockhead_def NULL_def off_state_def)
  have "reach g s' (L - {p})" using r p f(1) [folded ph] by (rule reach_free)
  then show ?thesis using f gs unfolding ph by blast
qed

lemma first_malloc:
  "el_malloc 100 fresh_heap = Some (malloc_ptr 100 fresh_heap, malloc_state 100 fresh_heap)"
  "malloc_ptr 100 fresh_heap = 0x600000000020"
  "get_size (malloc_state 100 fresh_heap) 0x600000000000 = Some 100"
proof -
  have "case el_init example_globals zero_memory of
      Some (Inr s) \<Rightarrow> (case el_malloc 100 s of
          Some (p, s') \<Rightarrow> p = 0x600000000020 \<and> get_size s' 0x600000000000 = Some 100
        | _ \<Rightarrow> False)
    | _ \<Rightarrow> False"
    by (simp add: example_globals_def zero_memory_def el_run)
  then show "el_malloc 100 fresh_heap = Some (malloc_ptr 100 fresh_heap, malloc_state 100 fresh_heap)"
    "malloc_ptr 100 fresh_heap = 0x600000000020"
    "get_size (malloc_state 100 fresh_heap) 0x600000000000 = Some 100"
    by (auto simp: fresh_heap_init malloc_ptr_def malloc_state_def split: option.splits)
qed

lemma first_malloc_reach:
  "reach example_globals (malloc_state 100 fresh_heap) {malloc_ptr 100 fresh_heap}"
proof -
  have "unat (100 :: 64 word) + unat EL_BLOCK_OVERHEAD < 2 ^ 64"
    by (simp add: EL_BLOCK_OVERHEAD_def sizeof_blockhead_def sizeof_blockfoot_def)
  from reach_malloc [OF fresh_heap_reach this first_malloc(1)]
  show ?thesis by (simp add: first_malloc(2) NULL_def)
qed

lemma written_heap_reach: "reach example_globals written_heap {malloc_ptr 100 fresh_heap}"
proof -
  have p: "malloc_ptr 100 fresh_heap \<in> {malloc_ptr 100 fresh_heap}" by simp
  have g: "get_size (malloc_state 100 fresh_heap) (malloc_ptr 100 fresh_heap - sizeof_blockhead)
      = Some 100"
    using first_malloc(3) by (simp add: first_malloc(2) sizeof_blockhead_def)
  have a: "unat (0x600000000025 - malloc_ptr 100 fresh_heap) < unat (100 :: 64 word)"
    by (simp add: first_malloc(2))
  show ?thesis unfolding written_heap_def using first_malloc_reach p g a by (rule reach_write)
qed

lemma malloc_free_lists:
  assumes wf: "wf0 s bs av us" and co: "coalesced bs" and n: "unat n + 40 < 2 ^ 64"
    and ma: "el_malloc n s = Some (p, s1)" and p: "p \<noteq> NULL"
  shows "\<exists>s2. el_free p s1 = Some s2 \<and> length' (avail s2) = length' (avail s) \<and>
     bytes (avail s2) = bytes (avail s)"
proof (cases "wrapped_fit (size_of s) av n")
  case None
  then have "el_find_first_avail s n = Some NULL" using wf0_find [OF wf, of n] by simp
  then have "el_malloc n s = Some (NULL, s)" by (simp add: el_malloc_def)
  then show ?thesis using ma p by simp
next
  case (Some x)
  then have find: "el_find_first_avail s n = Some x" using wf0_find [OF wf, of n] by simp
  have xav: "x \<in> set av" and fitw: "n + EL_BLOCK_OVERHEAD \<le> size_of s x"
    using Some by (auto simp: wrapped_fit_def find_Some_iff)
  note D = wf0D [OF wf]
  obtain S where m: "(x, S, True) \<in> set bs"
    using xav D(8) by (auto simp: counts_ok_def flagged_def)
  have sz: "size_of s x = S" using wf0_state(2) [OF wf m] by (simp add: size_of_def off_size_def)
  obtain pre post where bs: "bs = pre @ (x, S, True) # post" using m by (auto dest: split_list)
  have n40: "unat (n + 40) = unat n + 40" using n by (simp add: unat_word_ariths)
  then have fit: "unat n + 40 \<le> unat S"
    using fitw sz
    by (simp add: word_le_nat_alt EL_BLOCK_OVERHEAD_def sizeof_blockhead_def sizeof_blockfoot_def)
  define y where "y = x + (n + 40)"
  define r where "r = S - n - 40"
  obtain s1' where r1: "el_malloc n s = Some (x + 32, s1')"
    "wf0 s1' (pre @ (x, n, False) # (y, r, True) # post) (y # remove1 x av) (x # us)"
    using wf0_malloc [OF wf [unfolded bs] fit find] unfolding y_def r_def by blast
  have eq: "p = x + 32" "s1 = s1'" using r1(1) ma by simp_all
  obtain s3 where w3: "wf0 s3 (pre @ (x, n, True) # (y, r, True) # post)
      (x # y # remove1 x av) (remove1 x (x # us))"
    and fr: "el_free (x + 32) s1' = el_merge_block_with_above x s3 \<bind>
       (\<lambda>s4. if pre \<noteq> [] then el_merge_block_with_above (fst (last pre)) s4 else Some s4)"
    using wf0_release [OF r1(2)] by blast
  obtain s4 where m4: "el_merge_block_with_above x s3 = Some s4"
    and w4: "wf0 s4 (pre @ (x, n + r + 40, True) # post)
      (x # remove1 x (remove1 y (x # y # remove1 x av))) (remove1 x (x # us))"
    using wf0_merge_do [OF w3] by blast
  have "(if pre \<noteq> [] then el_merge_block_with_above (fst (last pre)) s4 else Some s4) = Some s4"
  proof (cases pre rule: rev_cases)
    case Nil
    then show ?thesis by simp
  next
    case (snoc pre' a)
    obtain w sw fw where a: "a = (w, sw, fw)" by (cases a)
    have "coalesced (pre' @ (w, sw, fw) # (x, S, True) # post)" using co by (simp add: bs snoc a)
    then have "coalesced ((w, sw, fw) # (x, S, True) # post)"
      using coalesced_split [of pre' "(w, sw, fw)" "(x, S, True) # post"] by simp
    then have nf: "\<not> (fw \<and> True)" by simp
    have "wf0 s4 (pre' @ (w, sw, fw) # (x, n + r + 40, True) # post)
      (x # remove1 x (remove1 y (x # y # remove1 x av))) (remove1 x (x # us))"
      using w4 by (simp add: snoc a)
    from wf0_merge_skip [OF this nf] show ?thesis by (simp add: snoc a)
  qed
  then have f: "el_free p s1 = Some s4" using fr m4 by (simp add: eq)
  have c4: "counts_ok s4 (pre @ (x, n + r + 40, True) # post)
      (x # remove1 x (remove1 y (x # y # remove1 x av))) (remove1 x (x # us))"
    using w4 by (simp add: wf0_def)
  have c: "counts_ok s bs av us" using D(8) .
  have ch1: "chain (unat (heap_start s1')) (pre @ (x, n, False) # (y, r, True) # post)
      (unat (heap_end s1'))"
    using r1(2) by (simp add: wf0_def arena_ok_def)
  have xy: "x \<noteq> y" using chain_addrs_distinct [OF ch1] by simp
  have "n + 40 \<le> S" using fit n40 by (simp add: word_le_nat_alt)
  have tot: "n + r + 40 = S" by (simp add: r_def)
  have av4: "x # remove1 x (remove1 y (x # y # remove1 x av)) = x # remove1 x av"
    using xy by simp
  have "0 < length av" using xav by (cases av) auto
  then have len: "length (x # remove1 x av) = length av"
    using xav by (simp add: length_remove1)
  have "length' (avail s4) = of_nat (length (x # remove1 x av))"
    using c4 unfolding av4 by (simp only: counts_ok_def)
  then have "length' (avail s4) = length' (avail s)"
    using c unfolding len by (simp only: counts_ok_def)
  moreover have "bytes (avail s4) = bytes (avail s)"
    using c4 c by (simp add: counts_ok_def bs tot)
  ultimately show ?thesis using f by blast
qed



lemma el_malloc_exact_payload:
  assumes r: "reach g s L" and n: "unat n + unat EL_BLOCK_OVERHEAD < 2 ^ 64"
    and ma: "el_malloc n s = Some (p, s')" and p: "p \<noteq> NULL"
  shows "\<exists>bs'. arena_blocks s' bs' \<and> (p - sizeof_blockhead, n, False) \<in> set bs'"
proof -
  obtain bs av us where wf: "wf0 s bs av us" and co: "coalesced bs"
    using reach_wf [OF r] by blast
  have n': "unat n + 40 < 2 ^ 64"
    using n by (simp add: EL_BLOCK_OVERHEAD_def sizeof_blockhead_def sizeof_blockfoot_def)
  obtain q t bs' av' us' where 1: "el_malloc n s = Some (q, t)" and 2: "wf0 t bs' av' us'"
    and 3: "if q = NULL then t = s \<and> bs' = bs
      else flagged False bs' = insert (q - 32) (flagged False bs) \<and>
           q - 32 \<notin> flagged False bs \<and> (q - 32, n, False) \<in> set bs'"
    using wf_malloc [OF wf co n'] by blast
  have q: "q = p" and t: "t = s'" using 1 ma by simp_all
  have "(p - 32, n, False) \<in> set bs'" using 3 p unfolding q by simp
  moreover have "arena_blocks s' bs'" using 2 unfolding t by (rule wf0_arena_blocks)
  ultimately show ?thesis by (auto simp: sizeof_blockhead_def)
qed


section \<open>Reachable states without a wrapping request\<close>

text \<open>
  In the states of \<open>reach\<close>, where no request has wrapped around: an allocation followed at
  once by the release of its pointer restores the count and the bytes of the available
  list, and a release leaves no two neighbours of the arena both available.
\<close>

lemma malloc_free_round_trip_reachable:
  assumes "reach g s L" and "unat n + unat EL_BLOCK_OVERHEAD < 2 ^ 64"
    and "el_malloc n s = Some (p, s1)" and "p \<noteq> NULL"
  shows "\<exists>s2. el_free p s1 = Some s2 \<and> length' (avail s2) = length' (avail s) \<and>
     bytes (avail s2) = bytes (avail s)"
proof -
  obtain bs av us where wf: "wf0 s bs av us" and co: "coalesced bs"
    using reach_wf [OF assms(1)] by blast
  have n: "unat n + 40 < 2 ^ 64"
    using assms(2) by (simp add: EL_BLOCK_OVERHEAD_def sizeof_blockhead_def sizeof_blockfoot_def)
  show ?thesis using malloc_free_lists [OF wf co n assms(3,4)] .
qed

lemma el_free_coalesced_reachable:
  assumes "reach g s L"
    and "p \<in> L \<or> get_state s (p - sizeof_blockhead) = Some EL_AVAILABLE"
  shows "\<exists>s'. el_free p s = Some s' \<and> (\<exists>bs. arena_blocks s' bs) \<and>
     (\<forall>bs. arena_blocks s' bs \<longrightarrow> coalesced bs)"
proof -
  have "\<exists>s' bs av us. el_free p s = Some s' \<and> wf0 s' bs av us \<and> coalesced bs"
  proof (cases "p \<in> L")
    case True
    then show ?thesis using reach_free_result [OF assms(1)] by blast
  next
    case False
    then have "el_free p s = Some s" using assms(2) el_free_available by blast
    then show ?thesis using reach_wf [OF assms(1)] by blast
  qed
  then obtain s' bs av us where f: "el_free p s = Some s'" and wf: "wf0 s' bs av us"
    and co: "coalesced bs" by blast
  have a: "arena_blocks s' bs" using wf by (rule wf0_arena_blocks)
  have "\<forall>bs'. arena_blocks s' bs' \<longrightarrow> coalesced bs'"
    using arena_blocks_unique [OF a] co by blast
  then show ?thesis using f a by blast
qed


section \<open>Out of memory\<close>

text \<open>
  C7 (when no available block fits, \<^verbatim>\<open>el_malloc\<close> returns \<^verbatim>\<open>NULL\<close> and changes nothing): the test
  of \<^verbatim>\<open>el_find_first_avail\<close> adds \<^verbatim>\<open>size + EL_BLOCK_OVERHEAD\<close> in \<^verbatim>\<open>size_t\<close>, where the sum wraps
  around.  After \<^verbatim>\<open>el_malloc(100)\<close> on the fresh heap the only available block has 3916 bytes.
  It does not fit a request of \<open>2^64 - 40\<close> bytes, yet \<^verbatim>\<open>el_malloc\<close> returns the non-null
  pointer \<open>0x6000000000AC\<close> and changes the state: the used list has two members and 4096
  bytes instead of one member and 140 bytes, and the footer of the allocated block below
  (at \<open>0x600000000084\<close>) holds the request instead of 100.
\<close>

theorem el_malloc_wrapping_no_fit:
  "unat (- 40 :: 64 word) = 18446744073709551576 \<and>
   (case el_malloc 100 fresh_heap of None \<Rightarrow> False | Some (p1, s1) \<Rightarrow>
      list_blocks s1 AVAIL [0x60000000008C]
      \<and> unat (size_of s1 0x60000000008C) = 3916
      \<and> length' (used s1) = 1 \<and> bytes (used s1) = 140
      \<and> load64 (mem s1) 0x600000000084 = 100
      \<and> (case el_malloc (- 40) s1 of None \<Rightarrow> False | Some (p2, s2) \<Rightarrow>
            p2 = 0x6000000000AC \<and> p2 \<noteq> NULL
            \<and> length' (used s2) = 2 \<and> bytes (used s2) = 4096
            \<and> load64 (mem s2) 0x600000000084 = - 40))"
  unfolding fresh_heap_def
  by (simp add: example_globals_def zero_memory_def el_run list_blocks_def next_of_def
      prev_of_def size_of_def)

section \<open>First-fit search\<close>

text \<open>
  C3 (\<^verbatim>\<open>el_find_first_avail\<close> returns the block that a reference scan from the front selects,
  the first one whose payload size is at least the requested size plus the overhead, and
  none exactly when no block is that large): the test of the source adds
  \<^verbatim>\<open>size + EL_BLOCK_OVERHEAD\<close> in \<^verbatim>\<open>size_t\<close>, where the sum wraps around.  After \<^verbatim>\<open>el_malloc(100)\<close>
  on the fresh heap the available list holds one block, of 3916 bytes.  For a request of
  \<open>2^64 - 40\<close> bytes the reference scan selects none, since no block has \<open>2^64\<close> bytes, and
  \<^verbatim>\<open>el_find_first_avail\<close> returns that block.
\<close>

theorem el_find_first_avail_wrapping_request:
  "unat (- 40 :: 64 word) = 18446744073709551576 \<and>
   (case el_malloc 100 fresh_heap of None \<Rightarrow> False | Some (p1, s1) \<Rightarrow>
      list_blocks s1 AVAIL [0x60000000008C]
      \<and> size_of s1 0x60000000008C = 3916
      \<and> first_fit (size_of s1) [0x60000000008C] (- 40) = None
      \<and> el_find_first_avail s1 (- 40) = Some 0x60000000008C)"
  unfolding fresh_heap_def
  by (simp add: example_globals_def zero_memory_def el_run list_blocks_def next_of_def
      prev_of_def size_of_def first_fit_def)

section \<open>Conservation of bytes\<close>

text \<open>
  C1, as the spec states it, fails.  Each list's \<open>bytes\<close> field already counts payload plus
  overhead of every member (\<^verbatim>\<open>el_add_block_front\<close> adds \<^verbatim>\<open>EL_BLOCK_OVERHEAD + block->size\<close>),
  so adding \<open>overhead * (available.length + used.length)\<close> once more counts the overhead
  twice.  Right after \<^verbatim>\<open>el_init\<close> the left-hand side is 4096 + 40, the arena has 4096 bytes.
\<close>

theorem conservation_formula_counterexample:
  "bytes (avail fresh_heap) + bytes (used fresh_heap)
     + EL_BLOCK_OVERHEAD * (length' (avail fresh_heap) + length' (used fresh_heap))
   \<noteq> heap_bytes fresh_heap"
proof -
  have "el_init example_globals zero_memory = Some (Inr fresh_heap)" by (rule fresh_heap_init)
  moreover have "case el_init example_globals zero_memory of
      Some (Inr s) \<Rightarrow> bytes (avail s) = 4096 \<and> bytes (used s) = 0 \<and> length' (avail s) = 1 \<and>
        length' (used s) = 0 \<and> heap_bytes s = 4096
    | _ \<Rightarrow> False"
    by (simp add: example_globals_def zero_memory_def el_run)
  ultimately show ?thesis
    by (simp add: EL_BLOCK_OVERHEAD_def sizeof_blockhead_def sizeof_blockfoot_def)
qed

text \<open>
  C1, amended.  In every state reached from \<^verbatim>\<open>el_init\<close> by calls of \<^verbatim>\<open>el_malloc\<close> (with a
  request \<open>n\<close> for which \<open>n + overhead\<close> does not wrap around), by calls of \<^verbatim>\<open>el_free\<close> on
  pointers that are currently allocated, and by writes of the caller into the payload of
  allocated blocks, the two \<open>bytes\<close> fields add up to the arena byte
  count: \<open>available.bytes + used.bytes = heap_bytes\<close>.  The arena is a sequence \<open>bs\<close> of blocks,
  and the \<open>bytes\<close> field of each list is the sum of payload size plus overhead over the
  blocks of its state.
\<close>

theorem conservation:
  assumes "reach g s L"
  shows "bytes (avail s) + bytes (used s) = heap_bytes s \<and>
    (\<exists>bs. arena_blocks s bs \<and> bytes (avail s) = lbytes True bs \<and> bytes (used s) = lbytes False bs)"
proof -
  obtain bs av us where wf: "wf0 s bs av us" using reach_wf [OF assms] by blast
  have a: "arena_ok s bs" and c: "counts_ok s bs av us" using wf by (simp_all add: wf0_def)
  have ch: "chain (unat (heap_start s)) bs (unat (heap_end s))"
    and hb: "unat (heap_start s) + unat (heap_bytes s) = unat (heap_end s)"
    using a by (simp_all add: arena_ok_def)
  have "bytes (avail s) + bytes (used s) = of_nat (unat (heap_end s) - unat (heap_start s))"
    using lbytes_total [OF ch] c by (simp add: counts_ok_def)
  also have "unat (heap_end s) - unat (heap_start s) = unat (heap_bytes s)" using hb by arith
  finally have "bytes (avail s) + bytes (used s) = heap_bytes s" by simp
  moreover have "arena_blocks s bs" using wf by (rule wf0_arena_blocks)
  moreover have "bytes (avail s) = lbytes True bs" "bytes (used s) = lbytes False bs"
    using c by (simp_all add: counts_ok_def)
  ultimately show ?thesis by blast
qed

theorem conservation_witness:
  "reach example_globals written_heap {malloc_ptr 100 fresh_heap} \<and>
   bytes (avail written_heap) + bytes (used written_heap) = heap_bytes written_heap"
  using written_heap_reach conservation [OF written_heap_reach] by simp

section \<open>Allocation followed by release\<close>

text \<open>
  C2 (when \<^verbatim>\<open>el_malloc(n)\<close> succeeds and the pointer is freed at once, the available list has
  the block count and the bytes it had before): after \<^verbatim>\<open>el_malloc(100)\<close> on the fresh heap the
  available list has one block and 3956 bytes.  A request of \<open>2^64 - 32\<close> bytes passes the
  wrapped test of \<^verbatim>\<open>el_find_first_avail\<close> and of \<^verbatim>\<open>el_split_block\<close>; \<^verbatim>\<open>el_malloc\<close> returns the
  non-null pointer \<open>0x6000000000AC\<close>, and after \<^verbatim>\<open>el_free\<close> of that pointer the available list
  has two blocks and 4005 bytes.
\<close>

theorem malloc_free_wrapping_round_trip:
  "unat (- 32 :: 64 word) = 18446744073709551584 \<and>
   (case el_malloc 100 fresh_heap of None \<Rightarrow> False | Some (p1, s1) \<Rightarrow>
      length' (avail s1) = 1 \<and> bytes (avail s1) = 3956 \<and>
      (case el_malloc (- 32) s1 of None \<Rightarrow> False | Some (p2, s2) \<Rightarrow>
         p2 = 0x6000000000AC \<and>
         (case el_free p2 s2 of None \<Rightarrow> False | Some s3 \<Rightarrow>
            length' (avail s3) = 2 \<and> bytes (avail s3) = 4005)))"
  unfolding fresh_heap_def
  by (simp add: example_globals_def zero_memory_def el_run byte_store64_same load64_upd_same)

section \<open>Splitting a block\<close>

text \<open>
  C4 (split): a block whose payload has at least \<open>target + overhead\<close> bytes is shrunk to
  \<open>target\<close> and a new block with the remainder is made right above it; a smaller block is
  left alone and the result is none.  The code computes \<open>new_size + EL_BLOCK_OVERHEAD\<close> in
  \<^verbatim>\<open>size_t\<close>, where it wraps around.  With the target \<open>2^64 - 40\<close> the sum is 0, so the block of
  3916 bytes that is left after \<^verbatim>\<open>el_malloc(100)\<close> on the fresh heap passes the test although
  it is far smaller than the target.  The block "above" is then the block itself: the
  result is the block that was passed in, its size is 3916 again and not the target, and
  the footer of the block below (at \<open>0x600000000084\<close>, holding 100) is overwritten with the
  target.
\<close>

theorem el_split_block_wrapping_target:
  "unat (- 40 :: 64 word) = 18446744073709551576 \<and>
   (case el_malloc 100 fresh_heap of None \<Rightarrow> False | Some (p1, s1) \<Rightarrow>
      get_size s1 0x60000000008C = Some 3916
      \<and> load64 (mem s1) 0x600000000084 = 100
      \<and> (case el_split_block 0x60000000008C (- 40) s1 of None \<Rightarrow> False | Some (r, s2) \<Rightarrow>
            r = 0x60000000008C
            \<and> get_size s2 0x60000000008C = Some 3916
            \<and> load64 (mem s2) 0x600000000084 = - 40))"
  unfolding fresh_heap_def
  by (simp add: example_globals_def zero_memory_def el_run)

section \<open>Merging a block with the block above\<close>

text \<open>
  C5 (merge with the block above): when the lower block is absent the operation is to
  change nothing.  The code calls \<^verbatim>\<open>el_block_above(lower)\<close>, which reads \<^verbatim>\<open>lower->size\<close>,
  before it tests \<^verbatim>\<open>lower == NULL\<close>: with a null pointer the read through the null pointer
  comes first, and the call has no result in any state.
\<close>

theorem el_merge_block_with_above_null:
  "el_merge_block_with_above NULL s = None"
  by (simp add: el_merge_block_with_above_def el_block_above_def get_size_def)

theorem el_merge_block_with_above_null_witness:
  "el_merge_block_with_above NULL fresh_heap = None"
  using el_merge_block_with_above_null [of fresh_heap] by simp

section \<open>Releasing twice\<close>



section \<open>Coalescing\<close>

text \<open>
  C8 (after every \<^verbatim>\<open>el_free\<close> no two neighbours of the arena are both available): the calls
  \<^verbatim>\<open>a = el_malloc(100)\<close>, \<^verbatim>\<open>q = el_malloc(2^64 - 40)\<close>, \<^verbatim>\<open>b = el_malloc(200)\<close>, \<^verbatim>\<open>el_free(a)\<close>,
  \<^verbatim>\<open>el_free(b)\<close> on the fresh heap all return.  The second request wraps around in the tests
  of \<^verbatim>\<open>el_find_first_avail\<close> and \<^verbatim>\<open>el_split_block\<close> and overwrites the footer of the block of
  \<open>a\<close>, so that the last \<^verbatim>\<open>el_free\<close> does not find the block below.  In the end the block at
  \<open>0x600000000000\<close> (100 bytes) and the block right above it at \<open>0x60000000008C\<close> (3916 bytes)
  are both available and not merged.
\<close>

theorem el_free_after_wrapping_request:
  "(case el_malloc 100 fresh_heap of None \<Rightarrow> False | Some (a, s1) \<Rightarrow>
    (case el_malloc (- 40) s1 of None \<Rightarrow> False | Some (q, s2) \<Rightarrow>
      (case el_malloc 200 s2 of None \<Rightarrow> False | Some (b, s3) \<Rightarrow>
        (case el_free a s3 of None \<Rightarrow> False | Some s4 \<Rightarrow>
          (case el_free b s4 of None \<Rightarrow> False | Some s5 \<Rightarrow>
             a = 0x600000000020 \<and> q = 0x6000000000AC \<and> b = 0x6000000000AC \<and>
             get_state s4 0x60000000008C = Some EL_USED \<and>
             get_size s5 0x600000000000 = Some 100 \<and>
             get_state s5 0x600000000000 = Some EL_AVAILABLE \<and>
             el_block_above s5 0x600000000000 = Some 0x60000000008C \<and>
             get_size s5 0x60000000008C = Some 3916 \<and>
             get_state s5 0x60000000008C = Some EL_AVAILABLE)))))"
  unfolding fresh_heap_def
  by (simp add: example_globals_def zero_memory_def el_run)

section \<open>No allocation without a split\<close>




section \<open>The size of the block handed out\<close>

text \<open>
  C10 (a successful \<^verbatim>\<open>el_malloc(n)\<close> hands out a USED block of exactly \<open>n\<close> bytes): the test of
  \<^verbatim>\<open>el_find_first_avail\<close>, \<^verbatim>\<open>start->size >= size + EL_BLOCK_OVERHEAD\<close>, is computed in \<^verbatim>\<open>size_t\<close>
  and wraps around.  After \<^verbatim>\<open>el_malloc(100)\<close> on the fresh heap, a request of \<open>2^64 - 40\<close> bytes
  finds the block of 3916 bytes, and \<^verbatim>\<open>el_malloc\<close> returns the non-null pointer
  \<open>0x6000000000AC\<close>.  The block behind this pointer has 3916 bytes and not \<open>n\<close>, its state is
  AVAILABLE, and it is the first member of the used list and of the available list at
  once; the \<open>bytes\<close> fields of the two lists add up to 8052 in an arena of 4096 bytes.
\<close>

theorem el_malloc_wrapping_request:
  "unat (- 40 :: 64 word) = 18446744073709551576 \<and>
   (case el_malloc 100 fresh_heap of None \<Rightarrow> False | Some (p1, s1) \<Rightarrow>
      el_find_first_avail s1 (- 40) = Some 0x60000000008C
      \<and> get_size s1 0x60000000008C = Some 3916
      \<and> (case el_malloc (- 40) s1 of None \<Rightarrow> False | Some (p2, s2) \<Rightarrow>
            p2 = 0x6000000000AC
            \<and> get_size s2 (p2 - sizeof_blockhead) = Some 3916
            \<and> get_state s2 (p2 - sizeof_blockhead) = Some EL_AVAILABLE
            \<and> length' (used s2) = 2 \<and> bytes (used s2) = 4096
            \<and> length' (avail s2) = 1 \<and> bytes (avail s2) = 3956
            \<and> get_next s2 (beg (used s2)) = Some 0x60000000008C
            \<and> get_next s2 (beg (avail s2)) = Some 0x60000000008C))"
  unfolding fresh_heap_def
  by (simp add: example_globals_def zero_memory_def el_run)


end
